theory Spec2Isabelle
  imports Main "HOL-Library.Word"
begin

section \<open>Data model\<close>

text \<open>
  The in-memory node store (package db, type MemDb) and the storage part of the
  sparse Merkle tree (package smt: SetAccountBalance, SetContractStorage, SetStorage and
  their helpers). Go's uint64 is a 64-bit word, a byte an 8-bit word, a big.Int an
  unbounded integer; a nil *big.Int is None. The store's readers-writer lock is left out:
  every method holds it from entry to exit, so a method is one atomic step on the state.
\<close>

type_synonym u64 = "64 word"
type_synonym byte = "8 word"

text \<open>utils.NodeKey is [4]uint64; key[:] is the slice of its four limbs.\<close>

datatype NodeKey = NodeKey u64 u64 u64 u64

fun key_slice :: "NodeKey \<Rightarrow> u64 list" where
  "key_slice (NodeKey a b c d) = [a, b, c, d]"

text \<open>utils.NodeValue8 and utils.NodeValue12 are [8]uint64 and [12]uint64.\<close>

type_synonym NodeValue8 = "u64 list"
type_synonym NodeValue12 = "u64 list"

text \<open>libcommon.Address is 20 bytes, libcommon.Hash 32 bytes; Hash{} is zero.\<close>

type_synonym Address = "160 word"
type_synonym Hash32 = "256 word"

text \<open>
  Errors and panics as values. ErrNotFound is the package variable of db;
  ErrContextDone p is fmt.Errorf("[%s] Context done", p); the Panic constructors are Go's
  run-time panics; ErrInvalidInput and ErrOther are what the helpers outside these
  sources return.
\<close>

datatype error =
    ErrNotFound
  | ErrContextDone string
  | ErrInvalidInput
  | ErrOther string
  | PanicIndexOutOfRange
  | PanicDivideByZero
  | PanicNilDereference

record MemDb =
  Db :: "string \<rightharpoonup> string list"
  DbAccVal :: "string \<rightharpoonup> string list"
  DbKeySource :: "string \<rightharpoonup> byte list"
  DbHashKey :: "string \<rightharpoonup> byte list"
  DbCode :: "string \<rightharpoonup> byte list"
  LastRoot :: int
  Depth :: "8 word"

text \<open>
  The helpers of package utils, of erigon-lib and of the tree engine that these functions
  call and whose code is not among the sources, taken as parameters. InsertKA and
  InsertBatch are methods of the tree engine: they may write anything to the store and
  may fail.
\<close>

record env =
  ConvertArrayToHex :: "u64 list \<Rightarrow> string"
  ConvertHexToUint64 :: "string \<Rightarrow> error + u64"
  Hash :: "u64 list \<Rightarrow> u64 list \<Rightarrow> u64 list"
  BranchCapacity :: "u64 list"
  LeafCapacity :: "u64 list"
  Keccak :: "byte list \<Rightarrow> byte list"
  KeyEthAddrBalance :: "string \<Rightarrow> NodeKey"
  KeyEthAddrNonce :: "string \<Rightarrow> NodeKey"
  KeyContractCode :: "string \<Rightarrow> NodeKey"
  KeyContractLength :: "string \<Rightarrow> NodeKey"
  KeyContractStorage :: "string \<Rightarrow> string \<Rightarrow> error + NodeKey"
  EncodeKeySource :: "int \<Rightarrow> Address \<Rightarrow> Hash32 \<Rightarrow> byte list"
  AddressString :: "Address \<Rightarrow> string"
  HexToAddress :: "string \<Rightarrow> Address"
  HashContractBytecodeBigInt :: "string \<Rightarrow> int"
  StrValToBigInt :: "string \<Rightarrow> int option"
  BigToHash :: "int option \<Rightarrow> Hash32"
  InsertKA :: "NodeKey \<Rightarrow> int option \<Rightarrow> MemDb \<Rightarrow> (error + int) \<times> MemDb"
  InsertBatch :: "(nat \<Rightarrow> bool) \<Rightarrow> string \<Rightarrow> NodeKey list \<Rightarrow> NodeValue8 list \<Rightarrow> MemDb
                    \<Rightarrow> error option \<times> MemDb"

section \<open>The in-memory store\<close>

definition NewMemDb :: MemDb where
  "NewMemDb = \<lparr>Db = Map.empty, DbAccVal = Map.empty, DbKeySource = Map.empty,
     DbHashKey = Map.empty, DbCode = Map.empty, LastRoot = 0, Depth = 0\<rparr>"

text \<open>
  Indexing a Go map at an absent key gives the zero value: a nil slice, whose range loop
  has no iteration.
\<close>

definition index_or_nil :: "(string \<rightharpoonup> 'a list) \<Rightarrow> string \<Rightarrow> 'a list" where
  "index_or_nil m k = (case m k of None \<Rightarrow> [] | Some vs \<Rightarrow> vs)"

text \<open>
  The loop of Get: for i, v := range m.Db[k], parse v and store it at values[i]. values is
  a fixed array, so an index beyond it panics.
\<close>

fun Get_loop :: "env \<Rightarrow> string list \<Rightarrow> nat \<Rightarrow> u64 list \<Rightarrow> error + u64 list" where
  "Get_loop u [] i values = Inr values"
| "Get_loop u (v # vs) i values =
     (case ConvertHexToUint64 u v of
        Inl err \<Rightarrow> Inl err
      | Inr asUint64 \<Rightarrow>
          if i < length values then Get_loop u vs (Suc i) (values[i := asUint64])
          else Inl PanicIndexOutOfRange)"

definition Get :: "env \<Rightarrow> MemDb \<Rightarrow> NodeKey \<Rightarrow> error + NodeValue12" where
  "Get u m key =
     (let k = ConvertArrayToHex u (key_slice key)
      in Get_loop u (index_or_nil (Db m) k) 0 (replicate 12 0))"

definition InsertKeySource :: "env \<Rightarrow> NodeKey \<Rightarrow> byte list \<Rightarrow> MemDb \<Rightarrow> error + MemDb" where
  "InsertKeySource u key val m =
     (let k = ConvertArrayToHex u (key_slice key)
      in Inr (m\<lparr>DbKeySource := (DbKeySource m)(k \<mapsto> val)\<rparr>))"

definition DeleteKeySource :: "env \<Rightarrow> NodeKey \<Rightarrow> MemDb \<Rightarrow> error + MemDb" where
  "DeleteKeySource u key m =
     (let k = ConvertArrayToHex u (key_slice key)
      in Inr (m\<lparr>DbKeySource := (DbKeySource m)(k := None)\<rparr>))"

definition GetKeySource :: "env \<Rightarrow> MemDb \<Rightarrow> NodeKey \<Rightarrow> error + byte list" where
  "GetKeySource u m key =
     (let k = ConvertArrayToHex u (key_slice key)
      in case DbKeySource m k of None \<Rightarrow> Inl ErrNotFound | Some s \<Rightarrow> Inr s)"

section \<open>Go's library functions\<close>

text \<open>strings.HasPrefix and strings.TrimPrefix.\<close>

definition HasPrefix :: "string \<Rightarrow> string \<Rightarrow> bool" where
  "HasPrefix s p = (take (length p) s = p)"

definition TrimPrefix :: "string \<Rightarrow> string \<Rightarrow> string" where
  "TrimPrefix s p = (if HasPrefix s p then drop (length p) s else s)"

text \<open>
  big.Int.SetString(s, base) for a base from 2 to 36: an optional sign, then at least one
  digit, every digit below the base, letters of either case, and nothing else. On failure
  it returns nil.
\<close>

definition digitVal :: "char \<Rightarrow> nat option" where
  "digitVal c =
     (let n = (of_char c :: nat)
      in if 48 \<le> n \<and> n \<le> 57 then Some (n - 48)
         else if 97 \<le> n \<and> n \<le> 122 then Some (n - 87)
         else if 65 \<le> n \<and> n \<le> 90 then Some (n - 55)
         else None)"

fun scanDigits :: "nat \<Rightarrow> string \<Rightarrow> nat \<Rightarrow> nat option" where
  "scanDigits base [] acc = Some acc"
| "scanDigits base (c # cs) acc =
     (case digitVal c of
        None \<Rightarrow> None
      | Some d \<Rightarrow> if d < base then scanDigits base cs (acc * base + d) else None)"

definition scanNat :: "nat \<Rightarrow> string \<Rightarrow> nat option" where
  "scanNat base s = (if s = [] then None else scanDigits base s 0)"

definition SetString :: "string \<Rightarrow> nat \<Rightarrow> int option" where
  "SetString s base =
     (case s of
        [] \<Rightarrow> None
      | c # r \<Rightarrow>
          if c = CHR ''-'' then map_option (\<lambda>n. - int n) (scanNat base r)
          else if c = CHR ''+'' then map_option int (scanNat base r)
          else map_option int (scanNat base s))"

text \<open>hex.EncodeToString: two lower-case digits per byte.\<close>

definition hexDigit :: "nat \<Rightarrow> char" where
  "hexDigit n = ''0123456789abcdef'' ! n"

definition EncodeToString :: "byte list \<Rightarrow> string" where
  "EncodeToString bs = concat (map (\<lambda>b. [hexDigit (unat b div 16), hexDigit (unat b mod 16)]) bs)"

section \<open>Helpers of package utils that the spec describes\<close>

text \<open>
  Modelled from the spec: the leaf kinds of utils (KEY_BALANCE, KEY_NONCE, SC_CODE,
  SC_STORAGE, SC_LENGTH), whose declarations are not among the sources. The spec:
  "Leaf kinds: BALANCE=0, NONCE=1, CODE=2, STORAGE=3, LENGTH=4 (code length)".
\<close>

definition KEY_BALANCE :: int where "KEY_BALANCE = 0"
definition KEY_NONCE :: int where "KEY_NONCE = 1"
definition SC_CODE :: int where "SC_CODE = 2"
definition SC_STORAGE :: int where "SC_STORAGE = 3"
definition SC_LENGTH :: int where "SC_LENGTH = 4"

text \<open>
  Modelled from the spec: utils.ScalarToArrayBig and utils.NodeValue8FromBigIntArray, not
  among the sources. The spec: "scalar_to_8(x): eight 32-bit lanes, each lane stored in
  the low 32 bits of a 64-bit field element", and "Invalid inputs (malformed key length,
  value exceeding field) fail with ErrInvalidInput", the field being the Goldilocks field
  of order 2^64 - 2^32 + 1.
\<close>

definition ScalarToArrayBig :: "int \<Rightarrow> int list" where
  "ScalarToArrayBig x = map (\<lambda>i. (x div 2 ^ (32 * i)) mod 2 ^ 32) [0..<8]"

definition goldilocks :: int where
  "goldilocks = 2 ^ 64 - 2 ^ 32 + 1"

definition NodeValue8FromBigIntArray :: "int list \<Rightarrow> error + NodeValue8" where
  "NodeValue8FromBigIntArray xs =
     (if length xs = 8 \<and> list_all (\<lambda>x. 0 \<le> x \<and> x < goldilocks) xs
      then Inr (map word_of_int xs) else Inl ErrInvalidInput)"

text \<open>
  Modelled from the spec: utils.NodeValue8FromBigInt and NodeValue8.IsZero, not among the
  sources. The spec: "Value (8-limb). An 8-element field-element vector, obtained from a
  256-bit scalar by splitting into 8 x 32-bit lanes packed into 8 field elements; zero
  value is the sentinel meaning no entry / delete". Reading a nil *big.Int panics in Go.
\<close>

definition NodeValue8FromBigInt :: "int option \<Rightarrow> error + NodeValue8" where
  "NodeValue8FromBigInt v =
     (case v of None \<Rightarrow> Inl PanicNilDereference
      | Some x \<Rightarrow> NodeValue8FromBigIntArray (ScalarToArrayBig x))"

definition IsZero :: "NodeValue8 \<Rightarrow> bool" where
  "IsZero v = list_all (\<lambda>x. x = 0) v"

section \<open>Account, code and storage changes\<close>

text \<open>accounts.Account: the two fields these functions read.\<close>

record Account =
  Nonce :: u64
  Balance :: "256 word"

definition convertStringToBigInt :: "string \<Rightarrow> int option" where
  "convertStringToBigInt v =
     (if HasPrefix v ''0x'' then SetString (TrimPrefix v ''0x'') 16 else SetString v 10)"

definition appendToValuesBatchStorageBigInt ::
    "NodeValue8 list \<Rightarrow> int option \<Rightarrow> error + (NodeValue8 list \<times> bool)" where
  "appendToValuesBatchStorageBigInt valuesBatchStorage v =
     (case NodeValue8FromBigInt v of
        Inl err \<Rightarrow> Inl err
      | Inr nodeValue \<Rightarrow> Inr (valuesBatchStorage @ [nodeValue], IsZero nodeValue))"

definition convertBytecodeToBigInt :: "env \<Rightarrow> string \<Rightarrow> error + (int \<times> nat)" where
  "convertBytecodeToBigInt u bytecode =
     (let bi = HashContractBytecodeBigInt u bytecode;
          parsedBytecode = TrimPrefix bytecode ''0x'';
          parsedBytecode = (if length parsedBytecode mod 2 \<noteq> 0 then ''0'' @ parsedBytecode
                            else parsedBytecode);
          bytecodeLength = length parsedBytecode div 2
      in if length bytecode = 0 then Inr (0, 0) else Inr (bi, bytecodeLength))"

text \<open>SMT.InsertKeySource and SMT.DeleteKeySource, on the in-memory store.\<close>

definition SMT_InsertKeySource ::
    "env \<Rightarrow> NodeKey \<Rightarrow> int \<Rightarrow> Address \<Rightarrow> Hash32 \<Rightarrow> MemDb \<Rightarrow> error + MemDb" where
  "SMT_InsertKeySource u nodeKey kind accountAddr storagePosition m =
     (let ks = EncodeKeySource u kind accountAddr storagePosition
      in InsertKeySource u nodeKey ks m)"

definition SMT_DeleteKeySource :: "env \<Rightarrow> NodeKey \<Rightarrow> MemDb \<Rightarrow> error + MemDb" where
  "SMT_DeleteKeySource u nodeKey m = DeleteKeySource u nodeKey m"


text \<open>
  The state of SetStorage between its steps: the two batches and the store. A step that
  fails returns the error together with the store as the writes before it left it.
\<close>

record batch =
  keysBatchStorage :: "NodeKey list"
  valuesBatchStorage :: "NodeValue8 list"
  store :: MemDb

text \<open>
  The block SetStorage repeats for a balance, a nonce, a code hash, a code length and a
  storage slot: append the key, append the encoded value, then insert the key source when
  the value is not zero and delete it when it is.
\<close>

definition batchEntry ::
    "env \<Rightarrow> NodeKey \<Rightarrow> int option \<Rightarrow> int \<Rightarrow> Address \<Rightarrow> Hash32 \<Rightarrow> batch \<Rightarrow> (error \<times> MemDb) + batch" where
  "batchEntry u key v kind addr pos b =
     (let keys = keysBatchStorage b @ [key]
      in case appendToValuesBatchStorageBigInt (valuesBatchStorage b) v of
           Inl err \<Rightarrow> Inl (err, store b)
         | Inr (vals, isDelete) \<Rightarrow>
             (case (if \<not> isDelete then SMT_InsertKeySource u key kind addr pos (store b)
                    else SMT_DeleteKeySource u key (store b)) of
                Inl err \<Rightarrow> Inl (err, store b)
              | Inr m \<Rightarrow> Inr \<lparr>keysBatchStorage = keys, valuesBatchStorage = vals, store = m\<rparr>))"

text \<open>
  A Go map is iterated in an order the language does not fix: a change map is the list of
  its entries in the order of the iteration. ctx n says whether the context is done at the
  n-th poll of the call (select on ctx.Done with a default case), counted from 0.
\<close>

fun accLoop ::
    "env \<Rightarrow> (nat \<Rightarrow> bool) \<Rightarrow> string \<Rightarrow> nat \<Rightarrow> (Address \<times> Account option) list \<Rightarrow> batch
      \<Rightarrow> (error \<times> MemDb) + batch" where
  "accLoop u ctx logPrefix n [] b = Inr b"
| "accLoop u ctx logPrefix n ((addr, acc) # rest) b =
     (if ctx n then Inl (ErrContextDone logPrefix, store b)
      else
        let ethAddr = AddressString u addr;
            keyBalance = KeyEthAddrBalance u ethAddr;
            keyNonce = KeyEthAddrNonce u ethAddr;
            balance = (case acc of None \<Rightarrow> 0 | Some a \<Rightarrow> uint (Balance a));
            nonce = (case acc of None \<Rightarrow> 0 | Some a \<Rightarrow> uint (Nonce a))
        in case batchEntry u keyBalance (Some balance) KEY_BALANCE addr 0 b of
             Inl e \<Rightarrow> Inl e
           | Inr b1 \<Rightarrow>
               (case batchEntry u keyNonce (Some nonce) KEY_NONCE addr 0 b1 of
                  Inl e \<Rightarrow> Inl e
                | Inr b2 \<Rightarrow> accLoop u ctx logPrefix (Suc n) rest b2))"

fun codeLoop ::
    "env \<Rightarrow> (nat \<Rightarrow> bool) \<Rightarrow> string \<Rightarrow> nat \<Rightarrow> (Address \<times> string) list \<Rightarrow> batch
      \<Rightarrow> (error \<times> MemDb) + batch" where
  "codeLoop u ctx logPrefix n [] b = Inr b"
| "codeLoop u ctx logPrefix n ((addr, code) # rest) b =
     (if ctx n then Inl (ErrContextDone logPrefix, store b)
      else
        let ethAddr = AddressString u addr;
            keyContractCode = KeyContractCode u ethAddr;
            keyContractLength = KeyContractLength u ethAddr
        in case convertBytecodeToBigInt u code of
             Inl err \<Rightarrow> Inl (err, store b)
           | Inr (bi, bytecodeLength) \<Rightarrow>
               (case batchEntry u keyContractCode (Some bi) SC_CODE addr 0 b of
                  Inl e \<Rightarrow> Inl e
                | Inr b1 \<Rightarrow>
                    (case batchEntry u keyContractLength (Some (int bytecodeLength)) SC_LENGTH addr 0 b1 of
                       Inl e \<Rightarrow> Inl e
                     | Inr b2 \<Rightarrow> codeLoop u ctx logPrefix (Suc n) rest b2)))"

fun slotLoop :: "env \<Rightarrow> Address \<Rightarrow> (string \<times> string) list \<Rightarrow> batch \<Rightarrow> (error \<times> MemDb) + batch" where
  "slotLoop u addr [] b = Inr b"
| "slotLoop u addr ((k, v) # rest) b =
     (case KeyContractStorage u (AddressString u addr) k of
        Inl err \<Rightarrow> Inl (err, store b)
      | Inr keyStoragePosition \<Rightarrow>
          (let valueBigInt = convertStringToBigInt v;
               hash = BigToHash u (StrValToBigInt u k)
           in case batchEntry u keyStoragePosition valueBigInt SC_STORAGE addr hash b of
                Inl e \<Rightarrow> Inl e
              | Inr b1 \<Rightarrow> slotLoop u addr rest b1))"

fun storageLoop ::
    "env \<Rightarrow> (nat \<Rightarrow> bool) \<Rightarrow> string \<Rightarrow> nat \<Rightarrow> (Address \<times> (string \<times> string) list) list \<Rightarrow> batch
      \<Rightarrow> (error \<times> MemDb) + batch" where
  "storageLoop u ctx logPrefix n [] b = Inr b"
| "storageLoop u ctx logPrefix n ((addr, storage) # rest) b =
     (if ctx n then Inl (ErrContextDone logPrefix, store b)
      else case slotLoop u addr storage b of
             Inl e \<Rightarrow> Inl e
           | Inr b1 \<Rightarrow> storageLoop u ctx logPrefix (Suc n) rest b1)"

text \<open>The three loops of SetStorage, from the empty batches to the call of InsertBatch.\<close>

definition SetStorage_loops ::
    "env \<Rightarrow> (nat \<Rightarrow> bool) \<Rightarrow> string \<Rightarrow> (Address \<times> Account option) list \<Rightarrow> (Address \<times> string) list
      \<Rightarrow> (Address \<times> (string \<times> string) list) list \<Rightarrow> MemDb \<Rightarrow> (error \<times> MemDb) + batch" where
  "SetStorage_loops u ctx logPrefix accChanges codeChanges storageChanges m =
     (case accLoop u ctx logPrefix 0 accChanges
             \<lparr>keysBatchStorage = [], valuesBatchStorage = [], store = m\<rparr> of
        Inl e \<Rightarrow> Inl e
      | Inr b1 \<Rightarrow>
          (case codeLoop u ctx logPrefix (length accChanges) codeChanges b1 of
             Inl e \<Rightarrow> Inl e
           | Inr b2 \<Rightarrow>
               storageLoop u ctx logPrefix (length accChanges + length codeChanges)
                 storageChanges b2))"

text \<open>
  SetStorage returns (keys, values, error) and leaves the store changed: the result is the
  error or the two slices (None for the nil slices of the early return), with the store.
\<close>

definition SetStorage ::
    "env \<Rightarrow> (nat \<Rightarrow> bool) \<Rightarrow> string \<Rightarrow> (Address \<times> Account option) list \<Rightarrow> (Address \<times> string) list
      \<Rightarrow> (Address \<times> (string \<times> string) list) list \<Rightarrow> MemDb
      \<Rightarrow> (error + (NodeKey list \<times> NodeValue8 list) option) \<times> MemDb" where
  "SetStorage u ctx logPrefix accChanges codeChanges storageChanges m =
     (if length storageChanges = 0 \<and> length accChanges = 0 \<and> length codeChanges = 0
      then (Inr None, m)
      else
        case SetStorage_loops u ctx logPrefix accChanges codeChanges storageChanges m of
          Inl (err, m1) \<Rightarrow> (Inl err, m1)
        | Inr b \<Rightarrow>
            (case InsertBatch u ctx logPrefix (keysBatchStorage b) (valuesBatchStorage b) (store b) of
               (Some err, m1) \<Rightarrow> (Inl err, m1)
             | (None, m1) \<Rightarrow> (Inr (Some (keysBatchStorage b, valuesBatchStorage b)), m1)))"

section \<open>The code map\<close>

text \<open>
  Modelled from the spec: utils.ResizeHashTo32BytesByPrefixingWithZeroes and
  utils.HashContractBytecode, not among the sources. The spec: "get_code(code_hash) /
  put(code): Keyed by keccak(code), 32-byte zero-prefixed" and "Code record: raw bytecode
  bytes, keyed by a 32-byte big-endian keccak hash (left-zero-padded if shorter)". AddCode
  passes the bytecode as a hex string, so the helper decodes it first; the key is the
  string GetCode looks up, 0x and the hex digits of the 32 bytes. The hash function itself
  is the parameter Keccak.
\<close>

definition ResizeHashTo32BytesByPrefixingWithZeroes :: "byte list \<Rightarrow> byte list" where
  "ResizeHashTo32BytesByPrefixingWithZeroes h =
     (if length h < 32 then replicate (32 - length h) 0 @ h else h)"

definition hexVal :: "char \<Rightarrow> nat" where
  "hexVal c = (case digitVal c of None \<Rightarrow> 0 | Some d \<Rightarrow> d)"

fun DecodeString :: "string \<Rightarrow> byte list" where
  "DecodeString (a # b # rest) = of_nat (hexVal a * 16 + hexVal b) # DecodeString rest"
| "DecodeString [a] = []"
| "DecodeString [] = []"

definition HashContractBytecode :: "env \<Rightarrow> string \<Rightarrow> string" where
  "HashContractBytecode u bc =
     ''0x'' @ EncodeToString (ResizeHashTo32BytesByPrefixingWithZeroes (Keccak u (DecodeString bc)))"

definition GetCode :: "env \<Rightarrow> MemDb \<Rightarrow> byte list \<Rightarrow> error + byte list" where
  "GetCode u m codeHash =
     (let codeHash = ResizeHashTo32BytesByPrefixingWithZeroes codeHash
      in case DbCode m (''0x'' @ EncodeToString codeHash) of
           None \<Rightarrow> Inl ErrNotFound
         | Some s \<Rightarrow> Inr s)"

definition AddCode :: "env \<Rightarrow> byte list \<Rightarrow> MemDb \<Rightarrow> error + MemDb" where
  "AddCode u code m =
     (let codeHash = HashContractBytecode u (EncodeToString code)
      in Inr (m\<lparr>DbCode := (DbCode m)(codeHash \<mapsto> code)\<rparr>))"

section \<open>Hashing the values of a contract's storage\<close>

text \<open>
  calcHashVal: the scalar of the string, its eight limbs, and the hash of the limbs under
  the branch capacity. A string that does not parse gives a nil scalar, which the limb
  split dereferences.
\<close>

definition calcHashVal :: "env \<Rightarrow> string \<Rightarrow> error + (NodeValue8 \<times> u64 list)" where
  "calcHashVal u v =
     (case convertStringToBigInt v of
        None \<Rightarrow> Inl PanicNilDereference
      | Some val \<Rightarrow>
          (let x = ScalarToArrayBig val
           in case NodeValue8FromBigIntArray x of
                Inl err \<Rightarrow> Inl err
              | Inr val8 \<Rightarrow> Inr (val8, Hash u val8 (BranchCapacity u))))"

text \<open>
  SetContractStorage up to its call of InsertStorage: the two maps chm (slot to the
  pointer to the 8-limb value) and vhm (slot to the value hash). The storage map is the
  list of its entries in the order of the iteration that fills storageKeys; storage[k] is
  the empty string at an absent key.
\<close>

definition lookup :: "(string \<times> string) list \<Rightarrow> string \<Rightarrow> string" where
  "lookup storage k = (case map_of storage k of None \<Rightarrow> [] | Some v \<Rightarrow> v)"

type_synonym hashMaps = "(string \<rightharpoonup> NodeValue8 option) \<times> (string \<rightharpoonup> u64 list)"

text \<open>The buffers of one worker: keyArray[i], cVArray[i] and hashArray[i].\<close>

record buffers =
  keyArray :: "string list"
  cVArray :: "NodeValue8 option list"
  hashArray :: "u64 list list"

definition makeBuffers :: "nat \<Rightarrow> buffers" where
  "makeBuffers operationsPerCpu =
     \<lparr>keyArray = replicate operationsPerCpu [],
      cVArray = replicate operationsPerCpu None,
      hashArray = replicate operationsPerCpu (replicate 4 0)\<rparr>"

text \<open>
  The goroutine of worker cpuI: j runs over cpuI, cpuI + cpuNum, ... below storageKeyCount.
  It ends with the panic of a write beyond a buffer (Inl), or with its buffers and the
  error it assigned to err, if any. cpuNum is positive wherever the loop runs: the division
  by cpuNum before it panics otherwise.
\<close>

function worker ::
    "env \<Rightarrow> string list \<Rightarrow> (string \<times> string) list \<Rightarrow> nat \<Rightarrow> nat \<Rightarrow> nat \<Rightarrow> buffers
      \<Rightarrow> error + (error option \<times> buffers)" where
  "worker u storageKeys storage cpuNum j count bufs =
     (if 0 < cpuNum \<and> j < length storageKeys then
        let k = storageKeys ! j; v = lookup storage k
        in if v = [] then worker u storageKeys storage cpuNum (j + cpuNum) count bufs
           else
             case calcHashVal u v of
               Inl e \<Rightarrow> Inr (Some e, bufs)
             | Inr (c, h) \<Rightarrow>
                 if count < length (keyArray bufs) \<and> count < length (cVArray bufs)
                    \<and> count < length (hashArray bufs)
                 then worker u storageKeys storage cpuNum (j + cpuNum) (Suc count)
                        (bufs\<lparr>keyArray := (keyArray bufs)[count := k],
                              cVArray := (cVArray bufs)[count := Some c],
                              hashArray := (hashArray bufs)[count := h]\<rparr>)
                 else Inl PanicIndexOutOfRange
      else Inr (None, bufs))"
  by pat_completeness auto
termination
  by (relation "measure (\<lambda>(u, storageKeys, storage, cpuNum, j, count, bufs). length storageKeys - j)")
     auto

text \<open>The indices worker cpuI visits, and the size the source gives every buffer.\<close>

function workerIndices :: "nat \<Rightarrow> nat \<Rightarrow> nat \<Rightarrow> nat list" where
  "workerIndices cpuNum storageKeyCount j =
     (if 0 < cpuNum \<and> j < storageKeyCount
      then j # workerIndices cpuNum storageKeyCount (j + cpuNum) else [])"
  by pat_completeness auto
termination
  by (relation "measure (\<lambda>(cpuNum, storageKeyCount, j). storageKeyCount - j)") auto

declare worker.simps [simp del] workerIndices.simps [simp del]

definition operationsPerCpu :: "nat \<Rightarrow> nat \<Rightarrow> nat" where
  "operationsPerCpu storageKeyCount cpuNum =
     storageKeyCount div cpuNum + storageKeyCount mod cpuNum"

text \<open>
  wg.Wait: a panic of any goroutine ends the program; otherwise err is what the workers
  assigned. The assignments race; the model keeps the one of the worker with the highest
  index.
\<close>

fun waitAll ::
    "(error + (error option \<times> buffers)) list \<Rightarrow> error + (error option \<times> buffers list)" where
  "waitAll [] = Inr (None, [])"
| "waitAll (r # rs) =
     (case r of
        Inl p \<Rightarrow> Inl p
      | Inr (e, bufs) \<Rightarrow>
          (case waitAll rs of
             Inl p \<Rightarrow> Inl p
           | Inr (e', bs) \<Rightarrow> Inr ((case e' of None \<Rightarrow> e | Some x \<Rightarrow> Some x), bufs # bs)))"

text \<open>
  The merge after the join: every slot of every buffer whose key is not the empty string
  goes into the two maps. The three arrays of a worker have the same length.
\<close>

definition mergeSlot ::
    "hashMaps \<Rightarrow> string \<times> NodeValue8 option \<times> u64 list \<Rightarrow> hashMaps" where
  "mergeSlot maps slot =
     (case (maps, slot) of
        ((chm, vhm), (k, c, h)) \<Rightarrow> if k = [] then (chm, vhm) else (chm(k \<mapsto> c), vhm(k \<mapsto> h)))"

definition mergeBuffers :: "hashMaps \<Rightarrow> buffers \<Rightarrow> hashMaps" where
  "mergeBuffers maps bufs =
     foldl mergeSlot maps (zip (keyArray bufs) (zip (cVArray bufs) (hashArray bufs)))"

definition SetContractStorage_parallel ::
    "env \<Rightarrow> nat \<Rightarrow> (string \<times> string) list \<Rightarrow> error + hashMaps" where
  "SetContractStorage_parallel u cpuNum storage =
     (let storageKeys = map fst storage;
          storageKeyCount = length storageKeys
      in if cpuNum = 0 then Inl PanicDivideByZero
         else
           let ops = operationsPerCpu storageKeyCount cpuNum
           in case waitAll (map (\<lambda>cpuI. worker u storageKeys storage cpuNum cpuI 0 (makeBuffers ops))
                              [0..<cpuNum]) of
                Inl p \<Rightarrow> Inl p
              | Inr (Some err, bs) \<Rightarrow> Inl err
              | Inr (None, bs) \<Rightarrow> Inr (foldl mergeBuffers (Map.empty, Map.empty) bs))"

fun sequentialLoop :: "env \<Rightarrow> (string \<times> string) list \<Rightarrow> string list \<Rightarrow> hashMaps \<Rightarrow> error + hashMaps" where
  "sequentialLoop u storage [] maps = Inr maps"
| "sequentialLoop u storage (k # ks) maps =
     (let v = lookup storage k
      in if v = [] then sequentialLoop u storage ks maps
         else
           case calcHashVal u v of
             Inl e \<Rightarrow> Inl e
           | Inr (c, h) \<Rightarrow> sequentialLoop u storage ks ((fst maps)(k \<mapsto> Some c), (snd maps)(k \<mapsto> h)))"

definition SetContractStorage_sequential :: "env \<Rightarrow> (string \<times> string) list \<Rightarrow> error + hashMaps" where
  "SetContractStorage_sequential u storage =
     sequentialLoop u storage (map fst storage) (Map.empty, Map.empty)"

definition SetContractStorage_maps :: "env \<Rightarrow> nat \<Rightarrow> (string \<times> string) list \<Rightarrow> error + hashMaps" where
  "SetContractStorage_maps u cpuNum storage =
     (if length storage > 100 then SetContractStorage_parallel u cpuNum storage
      else SetContractStorage_sequential u storage)"

text \<open>
  The two maps as the spec describes them: one entry for every slot whose value string is
  not empty, the 8-limb value and the value hash that calcHashVal gives for the string.
\<close>

definition spec_chm :: "env \<Rightarrow> (string \<times> string) list \<Rightarrow> (string \<rightharpoonup> NodeValue8 option)" where
  "spec_chm u storage k =
     (if lookup storage k = [] then None
      else case calcHashVal u (lookup storage k) of
             Inl e \<Rightarrow> None
           | Inr (c, h) \<Rightarrow> Some (Some c))"

definition spec_vhm :: "env \<Rightarrow> (string \<times> string) list \<Rightarrow> (string \<rightharpoonup> u64 list)" where
  "spec_vhm u storage k =
     (if lookup storage k = [] then None
      else case calcHashVal u (lookup storage k) of
             Inl e \<Rightarrow> None
           | Inr (c, h) \<Rightarrow> Some h)"

section \<open>An instance of the parameters\<close>

text \<open>
  A small instance of the helpers, for running the functions on concrete inputs. Its hash,
  key and encoding functions are stand-ins with the right types; the tree engine's
  InsertKA and InsertBatch succeed and leave the store alone. Every general theorem below
  holds for all instances.
\<close>

definition sample_env :: env where
  "sample_env =
     \<lparr>ConvertArrayToHex = (\<lambda>xs. ''0x'' @ EncodeToString (map ucast xs)),
      ConvertHexToUint64 =
        (\<lambda>s. case SetString (TrimPrefix s ''0x'') 16 of
               None \<Rightarrow> Inl ErrInvalidInput
             | Some x \<Rightarrow> Inr (word_of_int x)),
      Hash = (\<lambda>xs cap. take 4 (cap @ xs)),
      BranchCapacity = [0, 0, 0, 0],
      LeafCapacity = [1, 0, 0, 0],
      Keccak = (\<lambda>bs. take 32 (bs @ replicate 32 0)),
      KeyEthAddrBalance = (\<lambda>s. NodeKey (of_nat (length s)) 0 0 0),
      KeyEthAddrNonce = (\<lambda>s. NodeKey (of_nat (length s)) 0 0 1),
      KeyContractCode = (\<lambda>s. NodeKey (of_nat (length s)) 0 0 2),
      KeyContractLength = (\<lambda>s. NodeKey (of_nat (length s)) 0 0 4),
      KeyContractStorage =
        (\<lambda>s k. case convertStringToBigInt k of
                 None \<Rightarrow> Inl ErrInvalidInput
               | Some p \<Rightarrow> Inr (NodeKey (of_nat (length s)) (word_of_int p) 0 3)),
      EncodeKeySource = (\<lambda>kind a pos. [word_of_int kind, ucast a, ucast pos]),
      AddressString = (\<lambda>a. replicate (unat a) (CHR ''a'')),
      HexToAddress = (\<lambda>s. of_nat (length s)),
      HashContractBytecodeBigInt = (\<lambda>s. int (length s)),
      StrValToBigInt = convertStringToBigInt,
      BigToHash = (\<lambda>x. case x of None \<Rightarrow> 0 | Some v \<Rightarrow> word_of_int v),
      InsertKA = (\<lambda>k v m. (Inr 0, m)),
      InsertBatch = (\<lambda>ctx logPrefix ks vs m. (None, m))\<rparr>"

text \<open>
  Two storage maps of 101 slots, every value the string 1: the first has the empty string
  among its slot keys, the second has not.
\<close>

definition sample_storage :: "(string \<times> string) list" where
  "sample_storage = map (\<lambda>i. (replicate i (CHR ''a''), ''1'')) [0..<101]"

definition sample_storage_nonempty :: "(string \<times> string) list" where
  "sample_storage_nonempty = map (\<lambda>i. (replicate (Suc i) (CHR ''a''), ''1'')) [0..<101]"

section \<open>Notions used in the statements and proofs\<close>

text \<open>
  The tree part of the store: the nodes, the values, the hash-key and code maps, the last
  root and the depth. Only the key-source map is left out.
\<close>

definition same_tree :: "MemDb \<Rightarrow> MemDb \<Rightarrow> bool" where
  "same_tree m m' =
     (Db m' = Db m \<and> DbAccVal m' = DbAccVal m \<and> DbHashKey m' = DbHashKey m
      \<and> DbCode m' = DbCode m \<and> LastRoot m' = LastRoot m \<and> Depth m' = Depth m)"

definition result_store :: "(error \<times> MemDb) + batch \<Rightarrow> MemDb" where
  "result_store r = (case r of Inl (e, m) \<Rightarrow> m | Inr b \<Rightarrow> store b)"

definition failed :: "(error \<times> MemDb) + batch \<Rightarrow> bool" where
  "failed r = (case r of Inl e \<Rightarrow> True | Inr b \<Rightarrow> False)"


text \<open>
  The result r of a step under the context at hand against its result r' under a context
  that is never done: r is the "Context done" error, or the two are equal.
\<close>

definition as_uncancelled :: "string \<Rightarrow> (error \<times> MemDb) + batch \<Rightarrow> (error \<times> MemDb) + batch \<Rightarrow> bool" where
  "as_uncancelled logPrefix r r' =
     (case r of
        Inl (e, m) \<Rightarrow> e = ErrContextDone logPrefix \<or> r' = r
      | Inr b \<Rightarrow> r' = r)"

text \<open>The string under which the store files a node key.\<close>

definition storeKey :: "env \<Rightarrow> NodeKey \<Rightarrow> string" where
  "storeKey u key = ConvertArrayToHex u (key_slice key)"


text \<open>
  What the loops of SetStorage are to do with their input, entry by entry. A change is
  what one pass through the block of batchEntry is given: the tree key (or the error of
  its derivation), the value, and the kind, address and storage position of the key
  source. An account gives two changes, balance and nonce; a bytecode gives two, code hash
  and code length; a storage map gives one for each slot. The changes of a call are those
  of the accounts, then of the codes, then of the storage maps, in the order of the loops.
\<close>

type_synonym change = "(error + NodeKey) \<times> int option \<times> int \<times> Address \<times> Hash32"
type_synonym entry = "NodeKey \<times> NodeValue8 \<times> byte list"

definition accountEntries :: "env \<Rightarrow> Address \<times> Account option \<Rightarrow> change list" where
  "accountEntries u x =
     (case x of (addr, acc) \<Rightarrow>
        [(Inr (KeyEthAddrBalance u (AddressString u addr)),
          Some (case acc of None \<Rightarrow> 0 | Some a \<Rightarrow> uint (Balance a)), KEY_BALANCE, addr, 0),
         (Inr (KeyEthAddrNonce u (AddressString u addr)),
          Some (case acc of None \<Rightarrow> 0 | Some a \<Rightarrow> uint (Nonce a)), KEY_NONCE, addr, 0)])"

definition codeEntries :: "env \<Rightarrow> Address \<times> string \<Rightarrow> change list" where
  "codeEntries u x =
     (case x of (addr, code) \<Rightarrow>
        (case convertBytecodeToBigInt u code of
           Inl err \<Rightarrow> [(Inl err, None, SC_CODE, addr, 0)]
         | Inr (bi, bytecodeLength) \<Rightarrow>
             [(Inr (KeyContractCode u (AddressString u addr)), Some bi, SC_CODE, addr, 0),
              (Inr (KeyContractLength u (AddressString u addr)), Some (int bytecodeLength),
               SC_LENGTH, addr, 0)]))"

definition storageEntries :: "env \<Rightarrow> Address \<times> (string \<times> string) list \<Rightarrow> change list" where
  "storageEntries u x =
     (case x of (addr, storage) \<Rightarrow>
        map (\<lambda>(k, v). (KeyContractStorage u (AddressString u addr) k, convertStringToBigInt v,
                       SC_STORAGE, addr, BigToHash u (StrValToBigInt u k)))
          storage)"

definition changeEntries ::
    "env \<Rightarrow> (Address \<times> Account option) list \<Rightarrow> (Address \<times> string) list
      \<Rightarrow> (Address \<times> (string \<times> string) list) list \<Rightarrow> change list" where
  "changeEntries u accChanges codeChanges storageChanges =
     concat (map (accountEntries u) accChanges) @ concat (map (codeEntries u) codeChanges)
       @ concat (map (storageEntries u) storageChanges)"

text \<open>
  An entry is a change as the batch records it: the key, the encoded 8-limb value and the
  encoded key source. The entries of a list of changes exist when every key is derived
  and every value is encoded without error.
\<close>

definition encodeEntry :: "env \<Rightarrow> change \<Rightarrow> entry option" where
  "encodeEntry u ch =
     (case ch of (rk, v, kind, addr, pos) \<Rightarrow>
        (case rk of
           Inl err \<Rightarrow> None
         | Inr key \<Rightarrow>
             (case NodeValue8FromBigInt v of
                Inl err \<Rightarrow> None
              | Inr v8 \<Rightarrow> Some (key, v8, EncodeKeySource u kind addr pos))))"

fun encodeEntries :: "env \<Rightarrow> change list \<Rightarrow> entry list option" where
  "encodeEntries u [] = Some []"
| "encodeEntries u (ch # chs) =
     (case encodeEntry u ch of
        None \<Rightarrow> None
      | Some e \<Rightarrow> map_option ((#) e) (encodeEntries u chs))"

text \<open>
  What an entry is to do to the key-source map: delete the key source of its key when the
  value is zero, write it otherwise.
\<close>

definition keySourceStep :: "env \<Rightarrow> (string \<rightharpoonup> byte list) \<Rightarrow> entry \<Rightarrow> (string \<rightharpoonup> byte list)" where
  "keySourceStep u ks e =
     (case e of (key, v8, blob) \<Rightarrow>
        if IsZero v8 then ks(storeKey u key := None) else ks(storeKey u key \<mapsto> blob))"

text \<open>
  The batch b is what the changes chs make of the store m: its keys and values are those
  of the entries, in their order, and its store is m with the key-source map taken through
  the entries, one by one.
\<close>

definition tracks :: "env \<Rightarrow> MemDb \<Rightarrow> change list \<Rightarrow> batch \<Rightarrow> bool" where
  "tracks u m chs b =
     (\<exists>es. encodeEntries u chs = Some es
        \<and> keysBatchStorage b = map fst es
        \<and> valuesBatchStorage b = map (fst \<circ> snd) es
        \<and> store b = m\<lparr>DbKeySource := foldl (keySourceStep u) (DbKeySource m) es\<rparr>)"

text \<open>
  The changes of the first k addresses of a call, in the order of the loops: the addresses
  that SetStorage has been through when it polls the context for the k-th time (counted
  from 0).
\<close>

definition prefixEntries ::
    "env \<Rightarrow> nat \<Rightarrow> (Address \<times> Account option) list \<Rightarrow> (Address \<times> string) list
      \<Rightarrow> (Address \<times> (string \<times> string) list) list \<Rightarrow> change list" where
  "prefixEntries u k accChanges codeChanges storageChanges =
     changeEntries u (take k accChanges) (take (k - length accChanges) codeChanges)
       (take (k - length accChanges - length codeChanges) storageChanges)"

text \<open>One pass through the body of each of the three loops, after the poll.\<close>

definition accBody :: "env \<Rightarrow> Address \<times> Account option \<Rightarrow> batch \<Rightarrow> (error \<times> MemDb) + batch" where
  "accBody u x b =
     (case x of (addr, acc) \<Rightarrow>
        (case batchEntry u (KeyEthAddrBalance u (AddressString u addr))
                (Some (case acc of None \<Rightarrow> 0 | Some a \<Rightarrow> uint (Balance a))) KEY_BALANCE addr 0 b of
           Inl e \<Rightarrow> Inl e
         | Inr b1 \<Rightarrow>
             batchEntry u (KeyEthAddrNonce u (AddressString u addr))
               (Some (case acc of None \<Rightarrow> 0 | Some a \<Rightarrow> uint (Nonce a))) KEY_NONCE addr 0 b1))"

definition codeBody :: "env \<Rightarrow> Address \<times> string \<Rightarrow> batch \<Rightarrow> (error \<times> MemDb) + batch" where
  "codeBody u x b =
     (case x of (addr, code) \<Rightarrow>
        (case convertBytecodeToBigInt u code of
           Inl err \<Rightarrow> Inl (err, store b)
         | Inr (bi, bytecodeLength) \<Rightarrow>
             (case batchEntry u (KeyContractCode u (AddressString u addr)) (Some bi) SC_CODE addr 0 b of
                Inl e \<Rightarrow> Inl e
              | Inr b1 \<Rightarrow>
                  batchEntry u (KeyContractLength u (AddressString u addr))
                    (Some (int bytecodeLength)) SC_LENGTH addr 0 b1)))"

definition storageBody ::
    "env \<Rightarrow> Address \<times> (string \<times> string) list \<Rightarrow> batch \<Rightarrow> (error \<times> MemDb) + batch" where
  "storageBody u x b = (case x of (addr, storage) \<Rightarrow> slotLoop u addr storage b)"

text \<open>
  What worker cpuI writes: the keys it visits whose value string is not empty, in the order
  of its loop; and the buffers after it has written them from position count on.
\<close>

definition visited :: "(string \<times> string) list \<Rightarrow> string list \<Rightarrow> nat \<Rightarrow> nat \<Rightarrow> string list" where
  "visited storage storageKeys cpuNum j =
     filter (\<lambda>k. lookup storage k \<noteq> [])
       (map (\<lambda>i. storageKeys ! i) (workerIndices cpuNum (length storageKeys) j))"

text \<open>
  The value of key k hashes without error; the 8-limb value and the hash calcHashVal gives.
\<close>

definition hashOk :: "env \<Rightarrow> (string \<times> string) list \<Rightarrow> string \<Rightarrow> bool" where
  "hashOk u storage k = (lookup storage k = [] \<or> \<not> isl (calcHashVal u (lookup storage k)))"

definition values_hash :: "env \<Rightarrow> (string \<times> string) list \<Rightarrow> bool" where
  "values_hash u storage = list_all (hashOk u storage) (map fst storage)"

definition valueOf :: "env \<Rightarrow> (string \<times> string) list \<Rightarrow> string \<Rightarrow> NodeValue8" where
  "valueOf u storage k = fst (projr (calcHashVal u (lookup storage k)))"

definition hashOf :: "env \<Rightarrow> (string \<times> string) list \<Rightarrow> string \<Rightarrow> u64 list" where
  "hashOf u storage k = snd (projr (calcHashVal u (lookup storage k)))"

definition filled :: "env \<Rightarrow> (string \<times> string) list \<Rightarrow> string list \<Rightarrow> nat \<Rightarrow> buffers \<Rightarrow> buffers" where
  "filled u storage ks count bufs =
     \<lparr>keyArray = take count (keyArray bufs) @ ks @ drop (count + length ks) (keyArray bufs),
      cVArray = take count (cVArray bufs) @ map (\<lambda>k. Some (valueOf u storage k)) ks
                  @ drop (count + length ks) (cVArray bufs),
      hashArray = take count (hashArray bufs) @ map (hashOf u storage) ks
                  @ drop (count + length ks) (hashArray bufs)\<rparr>"

text \<open>
  The maps after the parallel merge of the keys ks (the empty key is skipped), and after
  the sequential loop over ks.
\<close>

definition merged :: "env \<Rightarrow> (string \<times> string) list \<Rightarrow> string list \<Rightarrow> hashMaps \<Rightarrow> hashMaps" where
  "merged u storage ks maps =
     ((\<lambda>k. if k \<noteq> [] \<and> k \<in> set ks then Some (Some (valueOf u storage k)) else fst maps k),
      (\<lambda>k. if k \<noteq> [] \<and> k \<in> set ks then Some (hashOf u storage k) else snd maps k))"

definition merged_all :: "env \<Rightarrow> (string \<times> string) list \<Rightarrow> string list \<Rightarrow> hashMaps \<Rightarrow> hashMaps" where
  "merged_all u storage ks maps =
     ((\<lambda>k. if k \<in> set ks \<and> lookup storage k \<noteq> [] then Some (Some (valueOf u storage k)) else fst maps k),
      (\<lambda>k. if k \<in> set ks \<and> lookup storage k \<noteq> [] then Some (hashOf u storage k) else snd maps k))"

section \<open>Node lookup\<close>

text \<open>
  C1. The claim: a node lookup of a hash that is not in the store fails with ErrNotFound.
  Get has no presence check (GetKeySource, GetHashKey and GetCode have one): on every
  store that has no entry for the key (any store, with the entry of the key deleted; the
  empty store is one), and for every hex conversion, it returns the all-zero 12-limb
  record and no error.
\<close>

theorem Get_absent_returns_zero_record:
  "Get u (m\<lparr>Db := (Db m)(ConvertArrayToHex u (key_slice key) := None)\<rparr>) key = Inr (replicate 12 0)
   \<and> Get u NewMemDb key = Inr (replicate 12 0)"
  by (simp add: Get_def NewMemDb_def index_or_nil_def)

section \<open>SetStorage: what the loops do to the store\<close>

lemma same_tree_refl: "same_tree m m"
  by (simp add: same_tree_def)

lemma same_tree_trans: "same_tree a b \<Longrightarrow> same_tree b c \<Longrightarrow> same_tree a c"
  by (simp add: same_tree_def)

lemma batchEntry_tree: "same_tree (store b) (result_store (batchEntry u key v kind addr pos b))"
  by (auto simp: batchEntry_def result_store_def same_tree_def SMT_InsertKeySource_def
      SMT_DeleteKeySource_def InsertKeySource_def DeleteKeySource_def Let_def
      split: sum.splits prod.splits)

lemma batchEntry_Inl: "batchEntry u key v kind addr pos b = Inl (e, m') \<Longrightarrow> same_tree (store b) m'"
  using batchEntry_tree[of b u key v kind addr pos] by (simp add: result_store_def)

lemma batchEntry_Inr: "batchEntry u key v kind addr pos b = Inr b' \<Longrightarrow> same_tree (store b) (store b')"
  using batchEntry_tree[of b u key v kind addr pos] by (simp add: result_store_def)

lemma bind_tree:
  assumes "same_tree m (result_store r)"
    and "\<And>b1. r = Inr b1 \<Longrightarrow> same_tree (store b1) (result_store (f b1))"
  shows "same_tree m (result_store (case r of Inl e \<Rightarrow> Inl e | Inr b1 \<Rightarrow> f b1))"
proof (cases r)
  case (Inl e)
  with assms(1) show ?thesis by simp
next
  case (Inr b1)
  from assms(1) Inr have "same_tree m (store b1)" by (simp add: result_store_def)
  moreover from assms(2) Inr have "same_tree (store b1) (result_store (f b1))" by simp
  ultimately show ?thesis using Inr by (auto intro: same_tree_trans)
qed

lemma accLoop_tree: "same_tree (store b) (result_store (accLoop u ctx lp n xs b))"
proof (induction xs arbitrary: n b)
  case Nil
  show ?case by (simp add: result_store_def same_tree_refl)
next
  case (Cons x xs)
  obtain addr acc where x: "x = (addr, acc)" by (cases x)
  show ?case
  proof (cases "ctx n")
    case True
    then show ?thesis by (simp add: x result_store_def same_tree_refl)
  next
    case False
    then show ?thesis
      unfolding x accLoop.simps Let_def
      by (simp only: if_False) (intro bind_tree batchEntry_tree Cons.IH)
  qed
qed

lemma codeLoop_tree: "same_tree (store b) (result_store (codeLoop u ctx lp n xs b))"
proof (induction xs arbitrary: n b)
  case Nil
  show ?case by (simp add: result_store_def same_tree_refl)
next
  case (Cons x xs)
  obtain addr code where x: "x = (addr, code)" by (cases x)
  obtain bi len where c: "convertBytecodeToBigInt u code = Inr (bi, len)"
    by (cases "code = []") (simp_all add: convertBytecodeToBigInt_def Let_def)
  show ?case
  proof (cases "ctx n")
    case True
    then show ?thesis by (simp add: x result_store_def same_tree_refl)
  next
    case False
    then show ?thesis
      unfolding x codeLoop.simps Let_def c
      by (simp only: if_False sum.case prod.case) (intro bind_tree batchEntry_tree Cons.IH)
  qed
qed

lemma slotLoop_tree: "same_tree (store b) (result_store (slotLoop u addr xs b))"
proof (induction xs arbitrary: b)
  case Nil
  show ?case by (simp add: result_store_def same_tree_refl)
next
  case (Cons x xs)
  obtain k v where x: "x = (k, v)" by (cases x)
  show ?case
  proof (cases "KeyContractStorage u (AddressString u addr) k")
    case (Inl e)
    then show ?thesis by (simp add: x result_store_def same_tree_refl)
  next
    case (Inr key)
    then show ?thesis
      unfolding x slotLoop.simps Let_def Inr
      by (simp only: sum.case) (intro bind_tree batchEntry_tree Cons.IH)
  qed
qed

lemma storageLoop_tree: "same_tree (store b) (result_store (storageLoop u ctx lp n xs b))"
proof (induction xs arbitrary: n b)
  case Nil
  show ?case by (simp add: result_store_def same_tree_refl)
next
  case (Cons x xs)
  obtain addr st where x: "x = (addr, st)" by (cases x)
  show ?case
  proof (cases "ctx n")
    case True
    then show ?thesis by (simp add: x result_store_def same_tree_refl)
  next
    case False
    then show ?thesis
      unfolding x storageLoop.simps
      by (simp only: if_False) (intro bind_tree slotLoop_tree Cons.IH)
  qed
qed

lemma SetStorage_loops_tree:
  "same_tree m (result_store (SetStorage_loops u ctx lp a c s m))"
proof -
  let ?b0 = "\<lparr>keysBatchStorage = [], valuesBatchStorage = [], store = m\<rparr>"
  have "same_tree (store ?b0) (result_store (SetStorage_loops u ctx lp a c s m))"
    unfolding SetStorage_loops_def
    by (intro bind_tree accLoop_tree codeLoop_tree storageLoop_tree)
  then show ?thesis by simp
qed

lemma failed_bind:
  assumes "\<And>b1. r = Inr b1 \<Longrightarrow> failed (f b1)"
  shows "failed (case r of Inl e \<Rightarrow> Inl e | Inr b1 \<Rightarrow> f b1)"
  using assms by (cases r) (simp_all add: failed_def)

lemma accLoop_cancelled:
  assumes "ctx k"
  shows "n \<le> k \<Longrightarrow> k < n + length xs \<Longrightarrow> failed (accLoop u ctx lp n xs b)"
proof (induction xs arbitrary: n b)
  case Nil
  then show ?case by simp
next
  case (Cons x xs)
  obtain addr acc where x: "x = (addr, acc)" by (cases x)
  show ?case
  proof (cases "ctx n")
    case True
    then show ?thesis by (simp add: x failed_def)
  next
    case False
    with assms have "n \<noteq> k" by auto
    with Cons.prems have *: "Suc n \<le> k" "k < Suc n + length xs" by simp_all
    from False show ?thesis
      unfolding x accLoop.simps Let_def
      by (simp only: if_False) (intro failed_bind Cons.IH *)
  qed
qed

lemma codeLoop_cancelled:
  assumes "ctx k"
  shows "n \<le> k \<Longrightarrow> k < n + length xs \<Longrightarrow> failed (codeLoop u ctx lp n xs b)"
proof (induction xs arbitrary: n b)
  case Nil
  then show ?case by simp
next
  case (Cons x xs)
  obtain addr code where x: "x = (addr, code)" by (cases x)
  obtain bi len where c: "convertBytecodeToBigInt u code = Inr (bi, len)"
    by (cases "code = []") (simp_all add: convertBytecodeToBigInt_def Let_def)
  show ?case
  proof (cases "ctx n")
    case True
    then show ?thesis by (simp add: x failed_def)
  next
    case False
    with assms have "n \<noteq> k" by auto
    with Cons.prems have *: "Suc n \<le> k" "k < Suc n + length xs" by simp_all
    from False show ?thesis
      unfolding x codeLoop.simps Let_def c
      by (simp only: if_False sum.case prod.case) (intro failed_bind Cons.IH *)
  qed
qed

lemma storageLoop_cancelled:
  assumes "ctx k"
  shows "n \<le> k \<Longrightarrow> k < n + length xs \<Longrightarrow> failed (storageLoop u ctx lp n xs b)"
proof (induction xs arbitrary: n b)
  case Nil
  then show ?case by simp
next
  case (Cons x xs)
  obtain addr st where x: "x = (addr, st)" by (cases x)
  show ?case
  proof (cases "ctx n")
    case True
    then show ?thesis by (simp add: x failed_def)
  next
    case False
    with assms have "n \<noteq> k" by auto
    with Cons.prems have *: "Suc n \<le> k" "k < Suc n + length xs" by simp_all
    from False show ?thesis
      unfolding x storageLoop.simps
      by (simp only: if_False) (intro failed_bind Cons.IH *)
  qed
qed

lemma SetStorage_loops_cancelled:
  assumes ctx: "ctx k"
    and k: "k < length a + length c + length s"
  shows "failed (SetStorage_loops u ctx lp a c s m)"
proof -
  let ?b0 = "\<lparr>keysBatchStorage = [], valuesBatchStorage = [], store = m\<rparr>"
  show ?thesis
  proof (cases "accLoop u ctx lp 0 a ?b0")
    case (Inl e)
    then show ?thesis by (simp add: SetStorage_loops_def failed_def)
  next
    case b1: (Inr b1)
    have ka: "length a \<le> k"
    proof (rule ccontr)
      assume "\<not> length a \<le> k"
      then have "failed (accLoop u ctx lp 0 a ?b0)"
        by (intro accLoop_cancelled[where ctx = ctx and k = k, OF ctx]) simp_all
      with b1 show False by (simp add: failed_def)
    qed
    show ?thesis
    proof (cases "codeLoop u ctx lp (length a) c b1")
      case (Inl e)
      with b1 show ?thesis by (simp add: SetStorage_loops_def failed_def)
    next
      case b2: (Inr b2)
      have kc: "length a + length c \<le> k"
      proof (rule ccontr)
        assume "\<not> length a + length c \<le> k"
        with ka have "failed (codeLoop u ctx lp (length a) c b1)"
          by (intro codeLoop_cancelled[where ctx = ctx and k = k, OF ctx]) simp_all
        with b2 show False by (simp add: failed_def)
      qed
      from kc k have "failed (storageLoop u ctx lp (length a + length c) s b2)"
        by (intro storageLoop_cancelled[where ctx = ctx and k = k, OF ctx]) simp_all
      with b1 b2 show ?thesis by (simp add: SetStorage_loops_def)
    qed
  qed
qed

lemma SetStorage_loops_cancelled_at_once:
  assumes "ctx 0" and "0 < length a + length c + length s"
  shows "SetStorage_loops u ctx lp a c s m = Inl (ErrContextDone lp, m)"
proof (cases a)
  case (Cons x xs)
  obtain addr acc where "x = (addr, acc)" by (cases x)
  with Cons assms show ?thesis by (simp add: SetStorage_loops_def)
next
  case a: Nil
  show ?thesis
  proof (cases c)
    case (Cons x xs)
    obtain addr code where "x = (addr, code)" by (cases x)
    with Cons a assms show ?thesis by (simp add: SetStorage_loops_def)
  next
    case c: Nil
    from a c assms obtain x xs where s: "s = x # xs" by (cases s) auto
    obtain addr st where "x = (addr, st)" by (cases x)
    with s a c assms show ?thesis by (simp add: SetStorage_loops_def)
  qed
qed

lemma as_uncancelled_refl: "as_uncancelled lp r r"
  by (simp add: as_uncancelled_def split: sum.splits prod.splits)

lemma as_uncancelled_bind:
  assumes "as_uncancelled lp r r'"
    and "\<And>b1. r = Inr b1 \<Longrightarrow> as_uncancelled lp (f b1) (f' b1)"
  shows "as_uncancelled lp (case r of Inl e \<Rightarrow> Inl e | Inr b1 \<Rightarrow> f b1)
           (case r' of Inl e \<Rightarrow> Inl e | Inr b1 \<Rightarrow> f' b1)"
  using assms by (cases r) (auto simp: as_uncancelled_def split: sum.splits prod.splits)

lemma accLoop_uncancelled:
  "as_uncancelled lp (accLoop u ctx lp n xs b) (accLoop u (\<lambda>n. False) lp n' xs b)"
proof (induction xs arbitrary: n n' b)
  case Nil
  show ?case by (simp add: as_uncancelled_def)
next
  case (Cons x xs)
  obtain addr acc where x: "x = (addr, acc)" by (cases x)
  show ?case
  proof (cases "ctx n")
    case True
    then show ?thesis by (simp add: x as_uncancelled_def)
  next
    case False
    then show ?thesis
      unfolding x accLoop.simps Let_def
      by (simp only: if_False) (intro as_uncancelled_bind as_uncancelled_refl Cons.IH)
  qed
qed

lemma codeLoop_uncancelled:
  "as_uncancelled lp (codeLoop u ctx lp n xs b) (codeLoop u (\<lambda>n. False) lp n' xs b)"
proof (induction xs arbitrary: n n' b)
  case Nil
  show ?case by (simp add: as_uncancelled_def)
next
  case (Cons x xs)
  obtain addr code where x: "x = (addr, code)" by (cases x)
  obtain bi len where c: "convertBytecodeToBigInt u code = Inr (bi, len)"
    by (cases "code = []") (simp_all add: convertBytecodeToBigInt_def Let_def)
  show ?case
  proof (cases "ctx n")
    case True
    then show ?thesis by (simp add: x as_uncancelled_def)
  next
    case False
    then show ?thesis
      unfolding x codeLoop.simps Let_def c
      by (simp only: if_False sum.case prod.case)
         (intro as_uncancelled_bind as_uncancelled_refl Cons.IH)
  qed
qed

lemma storageLoop_uncancelled:
  "as_uncancelled lp (storageLoop u ctx lp n xs b) (storageLoop u (\<lambda>n. False) lp n' xs b)"
proof (induction xs arbitrary: n n' b)
  case Nil
  show ?case by (simp add: as_uncancelled_def)
next
  case (Cons x xs)
  obtain addr st where x: "x = (addr, st)" by (cases x)
  show ?case
  proof (cases "ctx n")
    case True
    then show ?thesis by (simp add: x as_uncancelled_def)
  next
    case False
    then show ?thesis
      unfolding x storageLoop.simps
      by (simp only: if_False) (intro as_uncancelled_bind as_uncancelled_refl Cons.IH)
  qed
qed

lemma SetStorage_loops_uncancelled:
  "as_uncancelled lp (SetStorage_loops u ctx lp a c s m) (SetStorage_loops u (\<lambda>n. False) lp a c s m)"
  unfolding SetStorage_loops_def
  by (intro as_uncancelled_bind accLoop_uncancelled codeLoop_uncancelled storageLoop_uncancelled)

lemma SetStorage_of_failed_loops:
  assumes "SetStorage_loops u ctx lp a c s m = Inl (err, m')"
  shows "SetStorage u ctx lp a c s m = (Inl err, m') \<and> same_tree m m'"
proof -
  have ne: "\<not> (length s = 0 \<and> length a = 0 \<and> length c = 0)"
  proof
    assume "length s = 0 \<and> length a = 0 \<and> length c = 0"
    then have "SetStorage_loops u ctx lp a c s m
        = Inr \<lparr>keysBatchStorage = [], valuesBatchStorage = [], store = m\<rparr>"
      by (simp add: SetStorage_loops_def)
    with assms show False by simp
  qed
  have "same_tree m m'"
    using SetStorage_loops_tree[of m u ctx lp a c s] assms
    by (simp add: result_store_def)
  then show ?thesis using ne assms by (simp add: SetStorage_def)
qed


text \<open>
  C10. With the three change maps empty, SetStorage returns the nil slices and no error,
  and the store is the one it was given: no key source is written or deleted and
  InsertBatch, whatever it does, is not called.
\<close>

theorem SetStorage_empty_changes:
  "SetStorage u ctx logPrefix [] [] [] m = (Inr None, m)"
  by (simp add: SetStorage_def)

text \<open>
  C8. When the loops of SetStorage stop with an error (the context is done, a value does
  not encode, a key does not derive, a key-source write fails), SetStorage returns that
  error without calling InsertBatch, and the tree nodes, the last root and the depth of
  the store are what they were before the call.
\<close>

theorem SetStorage_error_before_InsertBatch_keeps_tree:
  assumes "SetStorage_loops u ctx logPrefix accChanges codeChanges storageChanges m = Inl (err, m')"
  shows "SetStorage u ctx logPrefix accChanges codeChanges storageChanges m = (Inl err, m')
         \<and> Db m' = Db m \<and> LastRoot m' = LastRoot m \<and> Depth m' = Depth m"
  using SetStorage_of_failed_loops[OF assms] by (simp add: same_tree_def)

lemma sample_loops_value_failure:
  "SetStorage_loops sample_env (\<lambda>n. False) ''p'' [(1, Some \<lparr>Nonce = 1, Balance = 5\<rparr>)] []
      [(2, [(''0x01'', ''zz'')])] NewMemDb
   = Inl (PanicNilDereference,
          NewMemDb\<lparr>DbKeySource := [''0x01000000'' \<mapsto> [0, 1, 0], ''0x01000001'' \<mapsto> [1, 1, 0]]\<rparr>)"
  by (simp add: SetStorage_loops_def sample_env_def batchEntry_def
      appendToValuesBatchStorageBigInt_def NodeValue8FromBigInt_def NodeValue8FromBigIntArray_def
      ScalarToArrayBig_def goldilocks_def IsZero_def SMT_InsertKeySource_def SMT_DeleteKeySource_def
      InsertKeySource_def DeleteKeySource_def KEY_BALANCE_def KEY_NONCE_def EncodeToString_def
      hexDigit_def NewMemDb_def upt_rec convertStringToBigInt_def HasPrefix_def TrimPrefix_def
      SetString_def scanNat_def digitVal_def)

theorem SetStorage_error_before_InsertBatch_keeps_tree_witness:
  "\<exists>m'. SetStorage sample_env (\<lambda>n. False) ''p'' [(1, Some \<lparr>Nonce = 1, Balance = 5\<rparr>)] []
            [(2, [(''0x01'', ''zz'')])] NewMemDb = (Inl PanicNilDereference, m')
        \<and> DbKeySource m' ''0x01000000'' = Some [0, 1, 0]
        \<and> Db m' = Db NewMemDb \<and> LastRoot m' = LastRoot NewMemDb \<and> Depth m' = Depth NewMemDb"
  using SetStorage_error_before_InsertBatch_keeps_tree[OF sample_loops_value_failure]
  by simp

section \<open>SetStorage: the batch and the key sources, entry by entry\<close>

lemma encodeEntries_append:
  "encodeEntries u (xs @ ys) =
     (case encodeEntries u xs of
        None \<Rightarrow> None
      | Some es \<Rightarrow> map_option ((@) es) (encodeEntries u ys))"
proof (induction xs)
  case Nil
  show ?case by (cases "encodeEntries u ys") simp_all
next
  case (Cons x xs)
  then show ?case
    by (cases "encodeEntry u x"; cases "encodeEntries u xs"; cases "encodeEntries u ys") simp_all
qed

lemma encodeEntries_append_Some:
  assumes "encodeEntries u (xs @ ys) = Some es"
  shows "\<exists>es1 es2. encodeEntries u xs = Some es1 \<and> encodeEntries u ys = Some es2 \<and> es = es1 @ es2"
  using assms by (auto simp: encodeEntries_append split: option.splits)

lemma encodeEntries_Cons_Some:
  assumes "encodeEntries u (x # ys) = Some es"
  shows "\<exists>e es2. encodeEntry u x = Some e \<and> encodeEntries u ys = Some es2 \<and> es = e # es2"
  using assms by (auto split: option.splits)

lemma encodeEntries_snoc:
  assumes "encodeEntries u xs = Some es" "encodeEntry u x = Some e"
  shows "encodeEntries u (xs @ [x]) = Some (es @ [e])"
  using assms by (simp add: encodeEntries_append)

lemma tracks_start: "tracks u m [] \<lparr>keysBatchStorage = [], valuesBatchStorage = [], store = m\<rparr>"
  by (simp add: tracks_def)

lemma batchEntry_run:
  assumes t: "tracks u m chs b"
    and e: "encodeEntry u (Inr key, v, kind, addr, pos) = Some e"
  shows "\<exists>b'. batchEntry u key v kind addr pos b = Inr b'
           \<and> tracks u m (chs @ [(Inr key, v, kind, addr, pos)]) b'"
proof -
  from t obtain es where es: "encodeEntries u chs = Some es"
    and k: "keysBatchStorage b = map fst es"
    and vs: "valuesBatchStorage b = map (fst \<circ> snd) es"
    and s: "store b = m\<lparr>DbKeySource := foldl (keySourceStep u) (DbKeySource m) es\<rparr>"
    by (auto simp: tracks_def)
  from e obtain v8 where v8: "NodeValue8FromBigInt v = Inr v8"
    and e': "e = (key, v8, EncodeKeySource u kind addr pos)"
    by (auto simp: encodeEntry_def split: sum.splits)
  let ?s = "m\<lparr>DbKeySource := foldl (keySourceStep u) (DbKeySource m) (es @ [e])\<rparr>"
  let ?b = "\<lparr>keysBatchStorage = keysBatchStorage b @ [key],
            valuesBatchStorage = valuesBatchStorage b @ [v8], store = ?s\<rparr>"
  have "batchEntry u key v kind addr pos b = Inr ?b"
    by (simp add: batchEntry_def appendToValuesBatchStorageBigInt_def v8 SMT_InsertKeySource_def
        SMT_DeleteKeySource_def InsertKeySource_def DeleteKeySource_def Let_def s e'
        keySourceStep_def storeKey_def)
  moreover have "tracks u m (chs @ [(Inr key, v, kind, addr, pos)]) ?b"
    unfolding tracks_def
    by (rule exI[of _ "es @ [e]"]) (simp add: encodeEntries_snoc[OF es e] k vs e')
  ultimately show ?thesis by blast
qed



lemma bind_assoc:
  "(case (case r of Inl e \<Rightarrow> Inl e | Inr b1 \<Rightarrow> g b1) of Inl e \<Rightarrow> Inl e | Inr b2 \<Rightarrow> h b2)
   = (case r of Inl e \<Rightarrow> Inl e | Inr b1 \<Rightarrow> (case g b1 of Inl e \<Rightarrow> Inl e | Inr b2 \<Rightarrow> h b2))"
  by (cases r) simp_all

lemma accLoop_Cons:
  "accLoop u ctx lp n (x # xs) b =
     (if ctx n then Inl (ErrContextDone lp, store b)
      else case accBody u x b of Inl e \<Rightarrow> Inl e | Inr b1 \<Rightarrow> accLoop u ctx lp (Suc n) xs b1)"
  by (cases x) (simp add: accBody_def Let_def bind_assoc)

lemma codeLoop_Cons:
  "codeLoop u ctx lp n (x # xs) b =
     (if ctx n then Inl (ErrContextDone lp, store b)
      else case codeBody u x b of Inl e \<Rightarrow> Inl e | Inr b1 \<Rightarrow> codeLoop u ctx lp (Suc n) xs b1)"
proof -
  obtain addr code where x: "x = (addr, code)" by (cases x)
  obtain bi len where c: "convertBytecodeToBigInt u code = Inr (bi, len)"
    by (cases "code = []") (simp_all add: convertBytecodeToBigInt_def Let_def)
  show ?thesis by (simp add: x c codeBody_def Let_def bind_assoc)
qed

lemma storageLoop_Cons:
  "storageLoop u ctx lp n (x # xs) b =
     (if ctx n then Inl (ErrContextDone lp, store b)
      else case storageBody u x b of Inl e \<Rightarrow> Inl e | Inr b1 \<Rightarrow> storageLoop u ctx lp (Suc n) xs b1)"
  by (cases x) (simp add: storageBody_def)


lemma poll_loop_upto:
  assumes nil: "\<And>n b. L n [] b = Inr b"
    and cons: "\<And>n x xs b. L n (x # xs) b =
       (if ctx n then Inl (ErrContextDone lp, store b)
        else case body x b of Inl e \<Rightarrow> Inl e | Inr b1 \<Rightarrow> L (Suc n) xs b1)"
    and run: "\<And>chs x b es. tracks u m chs b \<Longrightarrow> encodeEntries u (chs @ E x) = Some es
        \<Longrightarrow> \<exists>b'. body x b = Inr b' \<and> tracks u m (chs @ E x) b'"
    and before: "\<forall>i<k. \<not> ctx i"
    and at: "ctx k"
  shows "tracks u m chs b \<Longrightarrow> n \<le> k
     \<Longrightarrow> encodeEntries u (chs @ concat (map E (take (k - n) xs))) = Some es
     \<Longrightarrow> (if k < n + length xs
          then L n xs b = Inl (ErrContextDone lp,
                  m\<lparr>DbKeySource := foldl (keySourceStep u) (DbKeySource m) es\<rparr>)
          else \<exists>b'. L n xs b = Inr b' \<and> tracks u m (chs @ concat (map E xs)) b')"
proof (induction xs arbitrary: chs n b)
  case Nil
  then show ?case by (simp add: nil)
next
  case (Cons x xs)
  show ?case
  proof (cases "n = k")
    case True
    with Cons.prems have "encodeEntries u chs = Some es" by simp
    with Cons.prems(1) have "store b = m\<lparr>DbKeySource := foldl (keySourceStep u) (DbKeySource m) es\<rparr>"
      by (auto simp: tracks_def)
    with True at show ?thesis by (simp add: cons)
  next
    case False
    with Cons.prems have nk: "n < k" by simp
    then have nctx: "\<not> ctx n" using before by simp
    from nk have tk: "take (k - n) (x # xs) = x # take (k - Suc n) xs"
      by (simp add: take_Cons')
    from Cons.prems(3) have enc: "encodeEntries u ((chs @ E x) @ concat (map E (take (k - Suc n) xs))) = Some es"
      by (simp add: tk)
    then obtain es1 where "encodeEntries u (chs @ E x) = Some es1"
      using encodeEntries_append_Some by blast
    from run[OF Cons.prems(1) this] obtain b1 where b1: "body x b = Inr b1"
      and t1: "tracks u m (chs @ E x) b1" by blast
    from nk have "Suc n \<le> k" by simp
    from Cons.IH[OF t1 this enc] b1 nctx show ?thesis by (simp add: cons split: if_splits)
  qed
qed


lemma accBody_run:
  assumes t: "tracks u m chs b" and enc: "encodeEntries u (chs @ accountEntries u x) = Some es"
  shows "\<exists>b'. accBody u x b = Inr b' \<and> tracks u m (chs @ accountEntries u x) b'"
proof -
  obtain addr acc where x: "x = (addr, acc)" by (cases x)
  let ?r1 = "(Inr (KeyEthAddrBalance u (AddressString u addr)),
          Some (case acc of None \<Rightarrow> 0 | Some a \<Rightarrow> uint (Balance a)), KEY_BALANCE, addr, 0) :: change"
  let ?r2 = "(Inr (KeyEthAddrNonce u (AddressString u addr)),
          Some (case acc of None \<Rightarrow> 0 | Some a \<Rightarrow> uint (Nonce a)), KEY_NONCE, addr, 0) :: change"
  have ch: "chs @ accountEntries u x = (chs @ [?r1]) @ [?r2]"
    by (simp add: x accountEntries_def)
  from enc obtain es2 where "encodeEntries u [?r1, ?r2] = Some es2"
    using encodeEntries_append_Some[of u chs "[?r1, ?r2]" es] by (auto simp: x accountEntries_def)
  then obtain e1 e2 where e1: "encodeEntry u ?r1 = Some e1" and e2: "encodeEntry u ?r2 = Some e2"
    by (auto split: option.splits)
  from batchEntry_run[OF t e1] obtain b1 where
    b1: "batchEntry u (KeyEthAddrBalance u (AddressString u addr))
           (Some (case acc of None \<Rightarrow> 0 | Some a \<Rightarrow> uint (Balance a))) KEY_BALANCE addr 0 b = Inr b1"
    and t1: "tracks u m (chs @ [?r1]) b1" by blast
  from batchEntry_run[OF t1 e2] obtain b2 where
    b2: "batchEntry u (KeyEthAddrNonce u (AddressString u addr))
           (Some (case acc of None \<Rightarrow> 0 | Some a \<Rightarrow> uint (Nonce a))) KEY_NONCE addr 0 b1 = Inr b2"
    and t2: "tracks u m ((chs @ [?r1]) @ [?r2]) b2" by blast
  have "accBody u x b = Inr b2" by (simp add: x accBody_def b1 b2)
  with t2 show ?thesis unfolding ch by blast
qed


lemma codeBody_run:
  assumes t: "tracks u m chs b" and enc: "encodeEntries u (chs @ codeEntries u x) = Some es"
  shows "\<exists>b'. codeBody u x b = Inr b' \<and> tracks u m (chs @ codeEntries u x) b'"
proof -
  obtain addr code where x: "x = (addr, code)" by (cases x)
  obtain bi len where c: "convertBytecodeToBigInt u code = Inr (bi, len)"
    by (cases "code = []") (simp_all add: convertBytecodeToBigInt_def Let_def)
  let ?r1 = "(Inr (KeyContractCode u (AddressString u addr)), Some bi, SC_CODE, addr, 0) :: change"
  let ?r2 = "(Inr (KeyContractLength u (AddressString u addr)), Some (int len), SC_LENGTH, addr, 0) :: change"
  have ch: "chs @ codeEntries u x = (chs @ [?r1]) @ [?r2]"
    by (simp add: x c codeEntries_def)
  from enc obtain es2 where "encodeEntries u [?r1, ?r2] = Some es2"
    using encodeEntries_append_Some[of u chs "[?r1, ?r2]" es] by (auto simp: x c codeEntries_def)
  then obtain e1 e2 where e1: "encodeEntry u ?r1 = Some e1" and e2: "encodeEntry u ?r2 = Some e2"
    by (auto split: option.splits)
  from batchEntry_run[OF t e1] obtain b1 where
    b1: "batchEntry u (KeyContractCode u (AddressString u addr)) (Some bi) SC_CODE addr 0 b = Inr b1"
    and t1: "tracks u m (chs @ [?r1]) b1" by blast
  from batchEntry_run[OF t1 e2] obtain b2 where
    b2: "batchEntry u (KeyContractLength u (AddressString u addr)) (Some (int len)) SC_LENGTH addr 0 b1 = Inr b2"
    and t2: "tracks u m ((chs @ [?r1]) @ [?r2]) b2" by blast
  have "codeBody u x b = Inr b2" by (simp add: x c codeBody_def b1 b2)
  with t2 show ?thesis unfolding ch by blast
qed


lemma slotLoop_run:
  "tracks u m chs b \<Longrightarrow> encodeEntries u (chs @ storageEntries u (addr, st)) = Some es
   \<Longrightarrow> \<exists>b'. slotLoop u addr st b = Inr b' \<and> tracks u m (chs @ storageEntries u (addr, st)) b'"
proof (induction st arbitrary: chs b)
  case Nil
  then show ?case by (simp add: storageEntries_def)
next
  case (Cons x st)
  obtain k v where x: "x = (k, v)" by (cases x)
  let ?rk = "KeyContractStorage u (AddressString u addr) k"
  let ?r = "(?rk, convertStringToBigInt v, SC_STORAGE, addr, BigToHash u (StrValToBigInt u k)) :: change"
  have ch: "chs @ storageEntries u (addr, x # st) = (chs @ [?r]) @ storageEntries u (addr, st)"
    by (simp add: x storageEntries_def)
  from Cons.prems(2) obtain es1 where "encodeEntries u (chs @ [?r]) = Some es1"
    unfolding ch using encodeEntries_append_Some by blast
  then obtain e where e: "encodeEntry u ?r = Some e"
    using encodeEntries_append_Some[of u chs "[?r]" es1] by (auto split: option.splits)
  then obtain key where key: "?rk = Inr key"
    by (cases ?rk) (simp_all add: encodeEntry_def)
  from e have e': "encodeEntry u (Inr key, convertStringToBigInt v, SC_STORAGE, addr,
      BigToHash u (StrValToBigInt u k)) = Some e" by (simp add: key)
  from batchEntry_run[OF Cons.prems(1) e'] obtain b1 where
    b1: "batchEntry u key (convertStringToBigInt v) SC_STORAGE addr
           (BigToHash u (StrValToBigInt u k)) b = Inr b1"
    and t1: "tracks u m (chs @ [?r]) b1" by (auto simp: key)
  from Cons.prems(2) have "encodeEntries u ((chs @ [?r]) @ storageEntries u (addr, st)) = Some es"
    by (simp only: ch)
  from Cons.IH[OF t1 this] obtain b' where "slotLoop u addr st b1 = Inr b'"
    and "tracks u m ((chs @ [?r]) @ storageEntries u (addr, st)) b'" by blast
  then show ?case unfolding ch by (simp add: x key b1 Let_def)
qed


lemma storageBody_run:
  assumes "tracks u m chs b" and "encodeEntries u (chs @ storageEntries u x) = Some es"
  shows "\<exists>b'. storageBody u x b = Inr b' \<and> tracks u m (chs @ storageEntries u x) b'"
proof -
  obtain addr st where x: "x = (addr, st)" by (cases x)
  from slotLoop_run[OF assms(1), of addr st es] assms(2) show ?thesis
    by (simp add: x storageBody_def)
qed





lemma accLoop_upto:
  assumes "\<forall>i<k. \<not> ctx i" and "ctx k"
  shows "tracks u m chs b \<Longrightarrow> n \<le> k
     \<Longrightarrow> encodeEntries u (chs @ concat (map (accountEntries u) (take (k - n) xs))) = Some es
     \<Longrightarrow> (if k < n + length xs
          then accLoop u ctx lp n xs b = Inl (ErrContextDone lp,
                  m\<lparr>DbKeySource := foldl (keySourceStep u) (DbKeySource m) es\<rparr>)
          else \<exists>b'. accLoop u ctx lp n xs b = Inr b'
                 \<and> tracks u m (chs @ concat (map (accountEntries u) xs)) b')"
  by (rule poll_loop_upto[where L = "accLoop u ctx lp" and body = "accBody u",
        OF _ accLoop_Cons accBody_run assms]) simp_all

lemma codeLoop_upto:
  assumes "\<forall>i<k. \<not> ctx i" and "ctx k"
  shows "tracks u m chs b \<Longrightarrow> n \<le> k
     \<Longrightarrow> encodeEntries u (chs @ concat (map (codeEntries u) (take (k - n) xs))) = Some es
     \<Longrightarrow> (if k < n + length xs
          then codeLoop u ctx lp n xs b = Inl (ErrContextDone lp,
                  m\<lparr>DbKeySource := foldl (keySourceStep u) (DbKeySource m) es\<rparr>)
          else \<exists>b'. codeLoop u ctx lp n xs b = Inr b'
                 \<and> tracks u m (chs @ concat (map (codeEntries u) xs)) b')"
  by (rule poll_loop_upto[where L = "codeLoop u ctx lp" and body = "codeBody u",
        OF _ codeLoop_Cons codeBody_run assms]) simp_all

lemma storageLoop_upto:
  assumes "\<forall>i<k. \<not> ctx i" and "ctx k"
  shows "tracks u m chs b \<Longrightarrow> n \<le> k
     \<Longrightarrow> encodeEntries u (chs @ concat (map (storageEntries u) (take (k - n) xs))) = Some es
     \<Longrightarrow> (if k < n + length xs
          then storageLoop u ctx lp n xs b = Inl (ErrContextDone lp,
                  m\<lparr>DbKeySource := foldl (keySourceStep u) (DbKeySource m) es\<rparr>)
          else \<exists>b'. storageLoop u ctx lp n xs b = Inr b'
                 \<and> tracks u m (chs @ concat (map (storageEntries u) xs)) b')"
  by (rule poll_loop_upto[where L = "storageLoop u ctx lp" and body = "storageBody u",
        OF _ storageLoop_Cons storageBody_run assms]) simp_all

lemma SetStorage_loops_stop:
  assumes before: "\<forall>i<k. \<not> ctx i" and at: "ctx k"
    and k: "k < length a + length c + length s"
    and enc: "encodeEntries u (prefixEntries u k a c s) = Some es"
  shows "SetStorage_loops u ctx lp a c s m
     = Inl (ErrContextDone lp, m\<lparr>DbKeySource := foldl (keySourceStep u) (DbKeySource m) es\<rparr>)"
proof -
  let ?b0 = "\<lparr>keysBatchStorage = [], valuesBatchStorage = [], store = m\<rparr>"
  let ?A = "concat (map (accountEntries u) a)"
  let ?C = "concat (map (codeEntries u) c)"
  let ?ka = "k - length a"
  let ?kc = "k - length a - length c"
  have t0: "tracks u m [] ?b0" by (rule tracks_start)
  from enc have enc': "encodeEntries u
      (concat (map (accountEntries u) (take k a)) @ concat (map (codeEntries u) (take ?ka c))
         @ concat (map (storageEntries u) (take ?kc s))) = Some es"
    by (simp add: prefixEntries_def changeEntries_def)
  show ?thesis
  proof (cases "k < length a")
    case True
    with enc' have "encodeEntries u ([] @ concat (map (accountEntries u) (take (k - 0) a))) = Some es"
      by simp
    from accLoop_upto[OF before at t0 _ this, of lp] True
    have "accLoop u ctx lp 0 a ?b0
        = Inl (ErrContextDone lp, m\<lparr>DbKeySource := foldl (keySourceStep u) (DbKeySource m) es\<rparr>)"
      by simp
    then show ?thesis by (simp add: SetStorage_loops_def)
  next
    case False
    then have ta: "take k a = a" by simp
    from enc' obtain esA where "encodeEntries u ?A = Some esA"
      unfolding ta using encodeEntries_append_Some by blast
    then have "encodeEntries u ([] @ concat (map (accountEntries u) (take (k - 0) a))) = Some esA"
      by (simp add: ta)
    from accLoop_upto[OF before at t0 _ this, of lp] False
    obtain b1 where b1: "accLoop u ctx lp 0 a ?b0 = Inr b1" and t1: "tracks u m ([] @ ?A) b1"
      by auto
    have na: "length a \<le> k" using False by simp
    show ?thesis
    proof (cases "k < length a + length c")
      case True
      with enc' have "encodeEntries u (([] @ ?A) @ concat (map (codeEntries u) (take ?ka c))) = Some es"
        by (simp add: ta)
      from codeLoop_upto[OF before at t1 na this, of lp] True
      have "codeLoop u ctx lp (length a) c b1
        = Inl (ErrContextDone lp, m\<lparr>DbKeySource := foldl (keySourceStep u) (DbKeySource m) es\<rparr>)"
        by simp
      with b1 show ?thesis by (simp add: SetStorage_loops_def)
    next
      case nc: False
      then have tc: "take ?ka c = c" by simp
      from enc' obtain esAC where "encodeEntries u (?A @ ?C) = Some esAC"
        unfolding ta tc using encodeEntries_append_Some[of u "?A @ ?C"] by (metis append.assoc)
      then have "encodeEntries u (([] @ ?A) @ concat (map (codeEntries u) (take ?ka c))) = Some esAC"
        by (simp add: tc)
      from codeLoop_upto[OF before at t1 na this, of lp] nc
      obtain b2 where b2: "codeLoop u ctx lp (length a) c b1 = Inr b2"
        and t2: "tracks u m (([] @ ?A) @ ?C) b2" by auto
      have nac: "length a + length c \<le> k" using nc by simp
      from enc' have "encodeEntries u ((([] @ ?A) @ ?C)
          @ concat (map (storageEntries u) (take (k - (length a + length c)) s))) = Some es"
        by (simp add: ta tc)
      from storageLoop_upto[OF before at t2 nac this, of lp] k
      have "storageLoop u ctx lp (length a + length c) s b2
        = Inl (ErrContextDone lp, m\<lparr>DbKeySource := foldl (keySourceStep u) (DbKeySource m) es\<rparr>)"
        by simp
      with b1 b2 show ?thesis by (simp add: SetStorage_loops_def)
    qed
  qed
qed




section \<open>SetStorage: cancellation\<close>

text \<open>
  C5, as amended. If the context is done at the k-th poll (counted from 0) and SetStorage
  has more than k addresses to poll for, SetStorage returns an error without calling
  InsertBatch: the "Context done" error, or the error of a step that fails in the same way
  when the context is never done. The tree nodes, the last root and the depth are what
  they were before the call. If the context is done at the first poll, the error is the
  "Context done" error and the whole store is unchanged. If the k-th poll is the first to
  find the context done and the changes of the k addresses before it are encoded without
  error, the error is the "Context done" error and the store is the one before the call
  with the key source of every one of these changes written (value not zero) or deleted
  (value zero): the writes made before the signal is seen stay, nothing is rolled back.
\<close>

theorem SetStorage_cancelled:
  assumes "ctx k"
    and "k < length accChanges + length codeChanges + length storageChanges"
  shows "\<exists>err m'. SetStorage u ctx logPrefix accChanges codeChanges storageChanges m = (Inl err, m')
           \<and> (err = ErrContextDone logPrefix
                \<or> SetStorage_loops u (\<lambda>n. False) logPrefix accChanges codeChanges storageChanges m
                    = Inl (err, m'))
           \<and> Db m' = Db m \<and> LastRoot m' = LastRoot m \<and> Depth m' = Depth m
           \<and> (k = 0 \<longrightarrow> err = ErrContextDone logPrefix \<and> m' = m)
           \<and> ((\<forall>i<k. \<not> ctx i) \<longrightarrow>
                (\<forall>es. encodeEntries u (prefixEntries u k accChanges codeChanges storageChanges) = Some es
                   \<longrightarrow> err = ErrContextDone logPrefix
                       \<and> m' = m\<lparr>DbKeySource := foldl (keySourceStep u) (DbKeySource m) es\<rparr>))"
proof -
  from SetStorage_loops_cancelled[where ctx = ctx and k = k and a = accChanges
      and c = codeChanges and s = storageChanges and u = u and lp = logPrefix and m = m, OF assms]
  obtain err m' where l: "SetStorage_loops u ctx logPrefix accChanges codeChanges storageChanges m = Inl (err, m')"
    by (auto simp: failed_def split: sum.splits)
  from SetStorage_of_failed_loops[OF l]
  have r: "SetStorage u ctx logPrefix accChanges codeChanges storageChanges m = (Inl err, m')"
    and t: "same_tree m m'" by simp_all
  have e: "err = ErrContextDone logPrefix
      \<or> SetStorage_loops u (\<lambda>n. False) logPrefix accChanges codeChanges storageChanges m
          = Inl (err, m')"
    using SetStorage_loops_uncancelled[of logPrefix u ctx accChanges codeChanges storageChanges m] l
    by (auto simp: as_uncancelled_def)
  have z: "err = ErrContextDone logPrefix \<and> m' = m" if "k = 0"
  proof -
    from that assms have c0: "ctx 0"
      and pos: "0 < length accChanges + length codeChanges + length storageChanges"
      by simp_all
    have "SetStorage_loops u ctx logPrefix accChanges codeChanges storageChanges m
        = Inl (ErrContextDone logPrefix, m)"
      using c0 pos by (rule SetStorage_loops_cancelled_at_once)
    with l show ?thesis by simp
  qed
  have p: "err = ErrContextDone logPrefix
      \<and> m' = m\<lparr>DbKeySource := foldl (keySourceStep u) (DbKeySource m) es\<rparr>"
    if before: "\<forall>i<k. \<not> ctx i"
      and enc: "encodeEntries u (prefixEntries u k accChanges codeChanges storageChanges) = Some es"
    for es
  proof -
    have "SetStorage_loops u ctx logPrefix accChanges codeChanges storageChanges m
        = Inl (ErrContextDone logPrefix, m\<lparr>DbKeySource := foldl (keySourceStep u) (DbKeySource m) es\<rparr>)"
      using before assms enc by (rule SetStorage_loops_stop)
    with l show ?thesis by simp
  qed
  from t have "Db m' = Db m \<and> LastRoot m' = LastRoot m \<and> Depth m' = Depth m"
    by (simp add: same_tree_def)
  with r e z p show ?thesis by blast
qed

theorem SetStorage_cancelled_witness:
  "encodeEntries sample_env
      (prefixEntries sample_env 1 [(1, Some \<lparr>Nonce = 1, Balance = 5\<rparr>), (2, None)] [] [])
     = Some [(NodeKey 1 0 0 0, [5, 0, 0, 0, 0, 0, 0, 0], [0, 1, 0]),
             (NodeKey 1 0 0 1, [1, 0, 0, 0, 0, 0, 0, 0], [1, 1, 0])]
   \<and> (\<exists>m'. SetStorage sample_env (\<lambda>n. 1 \<le> n) ''p''
              [(1, Some \<lparr>Nonce = 1, Balance = 5\<rparr>), (2, None)] [] [] NewMemDb
            = (Inl (ErrContextDone ''p''), m')
          \<and> DbKeySource NewMemDb ''0x01000000'' = None
          \<and> DbKeySource m' ''0x01000000'' = Some [0, 1, 0]
          \<and> DbKeySource m' ''0x01000001'' = Some [1, 1, 0]
          \<and> DbKeySource m' ''0x02000000'' = None)"
proof -
  let ?a = "[(1::Address, Some \<lparr>Nonce = 1, Balance = 5\<rparr>), (2, None)]"
  let ?c = "[] :: (Address \<times> string) list"
  let ?s = "[] :: (Address \<times> (string \<times> string) list) list"
  let ?ctx = "\<lambda>n::nat. 1 \<le> n"
  let ?es = "[(NodeKey 1 0 0 0, [5, 0, 0, 0, 0, 0, 0, 0], [0, 1, 0]),
              (NodeKey 1 0 0 1, [1, 0, 0, 0, 0, 0, 0, 0], [1, 1, 0])]
             :: (NodeKey \<times> NodeValue8 \<times> byte list) list"
  have h1: "?ctx 1" by simp
  have h2: "1 < length ?a + length ?c + length ?s" by simp
  have nb: "\<forall>i<1. \<not> ?ctx i" by simp
  have enc: "encodeEntries sample_env (prefixEntries sample_env 1 ?a ?c ?s) = Some ?es"
    by (simp add: prefixEntries_def changeEntries_def accountEntries_def codeEntries_def
      storageEntries_def encodeEntry_def sample_env_def NodeValue8FromBigInt_def
      NodeValue8FromBigIntArray_def ScalarToArrayBig_def goldilocks_def KEY_BALANCE_def
      KEY_NONCE_def SC_CODE_def SC_LENGTH_def SC_STORAGE_def upt_rec convertStringToBigInt_def
      convertBytecodeToBigInt_def HasPrefix_def TrimPrefix_def SetString_def scanNat_def
      digitVal_def)
  from SetStorage_cancelled[where ctx = ?ctx and k = 1 and accChanges = ?a and codeChanges = ?c
      and storageChanges = ?s and u = sample_env and logPrefix = "''p''" and m = NewMemDb,
      OF h1 h2]
  obtain err m' where r: "SetStorage sample_env ?ctx ''p'' ?a ?c ?s NewMemDb = (Inl err, m')"
    and i: "(\<forall>i<1. \<not> ?ctx i) \<longrightarrow>
        (\<forall>es. encodeEntries sample_env (prefixEntries sample_env 1 ?a ?c ?s) = Some es
           \<longrightarrow> err = ErrContextDone ''p''
               \<and> m' = NewMemDb\<lparr>DbKeySource := foldl (keySourceStep sample_env) (DbKeySource NewMemDb) es\<rparr>)"
    by blast
  from i nb enc have e: "err = ErrContextDone ''p''"
    and m': "m' = NewMemDb\<lparr>DbKeySource := foldl (keySourceStep sample_env) (DbKeySource NewMemDb) ?es\<rparr>"
    by blast+
  have k0: "storeKey sample_env (NodeKey 1 0 0 0) = ''0x01000000''"
    by (simp add: storeKey_def sample_env_def EncodeToString_def hexDigit_def)
  have k1: "storeKey sample_env (NodeKey 1 0 0 1) = ''0x01000001''"
    by (simp add: storeKey_def sample_env_def EncodeToString_def hexDigit_def)
  have d0: "DbKeySource NewMemDb ''0x01000000'' = None" by (simp add: NewMemDb_def)
  have d1: "DbKeySource m' ''0x01000000'' = Some [0, 1, 0]"
    unfolding m' by (simp add: keySourceStep_def IsZero_def k0 k1)
  have d2: "DbKeySource m' ''0x01000001'' = Some [1, 1, 0]"
    unfolding m' by (simp add: keySourceStep_def IsZero_def k0 k1)
  have d3: "DbKeySource m' ''0x02000000'' = None"
    unfolding m' by (simp add: keySourceStep_def IsZero_def k0 k1 NewMemDb_def)
  from r e have "SetStorage sample_env ?ctx ''p'' ?a ?c ?s NewMemDb = (Inl (ErrContextDone ''p''), m')"
    by simp
  with enc d0 d1 d2 d3 show ?thesis by blast
qed

text \<open>
  C5, the claim as stated fails: with two accounts and the context done at the second
  poll, SetStorage returns the "Context done" error, yet the key source of the first
  account's balance, absent before the call, is in the store after it.
\<close>

lemma sample_cancelled_at_second_poll:
  "SetStorage sample_env (\<lambda>n. 1 \<le> n) ''p'' [(1, Some \<lparr>Nonce = 1, Balance = 5\<rparr>), (2, None)] [] []
      NewMemDb
   = (Inl (ErrContextDone ''p''),
      NewMemDb\<lparr>DbKeySource := [''0x01000000'' \<mapsto> [0, 1, 0], ''0x01000001'' \<mapsto> [1, 1, 0]]\<rparr>)"
  by (simp add: SetStorage_def SetStorage_loops_def sample_env_def batchEntry_def
      appendToValuesBatchStorageBigInt_def NodeValue8FromBigInt_def NodeValue8FromBigIntArray_def
      ScalarToArrayBig_def goldilocks_def IsZero_def SMT_InsertKeySource_def SMT_DeleteKeySource_def
      InsertKeySource_def DeleteKeySource_def KEY_BALANCE_def KEY_NONCE_def EncodeToString_def
      hexDigit_def NewMemDb_def upt_rec)

theorem SetStorage_cancelled_keeps_partial_writes:
  "fst (SetStorage sample_env (\<lambda>n. 1 \<le> n) ''p''
          [(1, Some \<lparr>Nonce = 1, Balance = 5\<rparr>), (2, None)] [] [] NewMemDb)
     = Inl (ErrContextDone ''p'')
   \<and> GetKeySource sample_env
        (snd (SetStorage sample_env (\<lambda>n. 1 \<le> n) ''p''
                [(1, Some \<lparr>Nonce = 1, Balance = 5\<rparr>), (2, None)] [] [] NewMemDb))
        (NodeKey 1 0 0 0) = Inr [0, 1, 0]
   \<and> GetKeySource sample_env NewMemDb (NodeKey 1 0 0 0) = Inl ErrNotFound
   \<and> snd (SetStorage sample_env (\<lambda>n. 1 \<le> n) ''p''
            [(1, Some \<lparr>Nonce = 1, Balance = 5\<rparr>), (2, None)] [] [] NewMemDb) \<noteq> NewMemDb"
proof -
  let ?m = "snd (SetStorage sample_env (\<lambda>n. 1 \<le> n) ''p''
                [(1, Some \<lparr>Nonce = 1, Balance = 5\<rparr>), (2, None)] [] [] NewMemDb)"
  have a: "GetKeySource sample_env ?m (NodeKey 1 0 0 0) = Inr [0, 1, 0]"
    unfolding sample_cancelled_at_second_poll
    by (simp add: GetKeySource_def sample_env_def NewMemDb_def EncodeToString_def hexDigit_def)
  have b: "GetKeySource sample_env NewMemDb (NodeKey 1 0 0 0) = Inl ErrNotFound"
    by (simp add: GetKeySource_def NewMemDb_def)
  have c: "fst (SetStorage sample_env (\<lambda>n. 1 \<le> n) ''p''
          [(1, Some \<lparr>Nonce = 1, Balance = 5\<rparr>), (2, None)] [] [] NewMemDb)
     = Inl (ErrContextDone ''p'')"
    unfolding sample_cancelled_at_second_poll by (rule fst_conv)
  from a b have "?m \<noteq> NewMemDb" by auto
  with a b c show ?thesis by blast
qed

section \<open>Key sources of zero values\<close>




section \<open>The code map: round trip\<close>

lemma hexVal_hexDigit_all: "list_all (\<lambda>n. hexVal (hexDigit n) = n) [0..<16]"
  by code_simp

lemma hexVal_hexDigit: "n < 16 \<Longrightarrow> hexVal (hexDigit n) = n"
  using hexVal_hexDigit_all by (simp add: list_all_iff)

lemma DecodeString_EncodeToString: "DecodeString (EncodeToString bs) = bs"
proof (induction bs)
  case Nil
  show ?case by (simp add: EncodeToString_def)
next
  case (Cons b bs)
  have lt: "unat b < 256" using unsigned_less[of b, where ?'a = nat] by simp
  then have "unat b div 16 < 16" by simp
  then have hi: "hexVal (hexDigit (unat b div 16)) = unat b div 16" by (rule hexVal_hexDigit)
  have lo: "hexVal (hexDigit (unat b mod 16)) = unat b mod 16" by (rule hexVal_hexDigit) simp
  have "(of_nat (unat b div 16 * 16 + unat b mod 16) :: byte) = b"
    by simp
  with hi lo Cons.IH show ?case by (simp add: EncodeToString_def)
qed

text \<open>
  C6. After AddCode c, GetCode at the hash of c returns c. The key under which the code is
  stored is 0x followed by the hex digits of the hash, left-padded with zero bytes to 32
  bytes when it is shorter.
\<close>

theorem AddCode_GetCode:
  "\<exists>m'. AddCode u c m = Inr m'
     \<and> GetCode u m' (Keccak u c) = Inr c
     \<and> DbCode m' (''0x'' @ EncodeToString (ResizeHashTo32BytesByPrefixingWithZeroes (Keccak u c))) = Some c
     \<and> length (ResizeHashTo32BytesByPrefixingWithZeroes (Keccak u c)) = max 32 (length (Keccak u c))"
  by (simp add: AddCode_def GetCode_def HashContractBytecode_def Let_def
      DecodeString_EncodeToString ResizeHashTo32BytesByPrefixingWithZeroes_def)

section \<open>The value hash\<close>

lemma lanes_sum:
  fixes x :: int
  shows "(\<Sum>i<n. (x div 2 ^ (32 * i)) mod 2 ^ 32 * 2 ^ (32 * i)) = x mod 2 ^ (32 * n)"
proof (induction n)
  case 0
  show ?case by simp
next
  case (Suc n)
  have "x mod (2 ^ (32 * n) * 2 ^ 32) = 2 ^ (32 * n) * (x div 2 ^ (32 * n) mod 2 ^ 32) + x mod 2 ^ (32 * n)"
    by (rule zmod_zmult2_eq) simp
  moreover have "(2::int) ^ (32 * Suc n) = 2 ^ (32 * n) * 2 ^ 32"
    by (simp add: power_add)
  ultimately show ?case using Suc.IH by (simp add: mult.commute)
qed

lemma lane_range:
  fixes x :: int
  shows "0 \<le> (x div 2 ^ (32 * i)) mod 2 ^ 32" and "(x div 2 ^ (32 * i)) mod 2 ^ 32 < goldilocks"
proof -
  show "0 \<le> (x div 2 ^ (32 * i)) mod 2 ^ 32" by simp
  have "(x div 2 ^ (32 * i)) mod 2 ^ 32 < 2 ^ 32" by simp
  then show "(x div 2 ^ (32 * i)) mod 2 ^ 32 < goldilocks" by (simp add: goldilocks_def)
qed

lemma NodeValue8_of_scalar:
  "NodeValue8FromBigIntArray (ScalarToArrayBig x) = Inr (map word_of_int (ScalarToArrayBig x))"
  using lane_range[of x]
  by (simp add: NodeValue8FromBigIntArray_def ScalarToArrayBig_def list_all_iff)

lemma lane_uint:
  fixes x :: int
  shows "uint (word_of_int ((x div 2 ^ (32 * i)) mod 2 ^ 32) :: u64) = (x div 2 ^ (32 * i)) mod 2 ^ 32"
proof -
  have "(x div 2 ^ (32 * i)) mod 2 ^ 32 < 2 ^ 32" by simp
  then have "(x div 2 ^ (32 * i)) mod 2 ^ 32 < 2 ^ 64" by simp
  moreover have "0 \<le> (x div 2 ^ (32 * i)) mod 2 ^ 32" by simp
  ultimately show ?thesis by (simp add: uint_word_of_int)
qed

text \<open>
  C7. For a value string v that parses to a 256-bit scalar x, calcHashVal returns the
  eight limbs of x (limb i is the i-th 32-bit lane of x, and the lanes put together give
  x back) with the hash of these limbs under BranchCapacity, not LeafCapacity.
\<close>

theorem calcHashVal_branch_capacity:
  assumes "convertStringToBigInt v = Some x" and "0 \<le> x" and "x < 2 ^ 256"
  shows "\<exists>val8. calcHashVal u v = Inr (val8, Hash u val8 (BranchCapacity u))
           \<and> length val8 = 8
           \<and> (\<forall>i<8. uint (val8 ! i) = (x div 2 ^ (32 * i)) mod 2 ^ 32)
           \<and> (\<Sum>i<8. uint (val8 ! i) * 2 ^ (32 * i)) = x"
proof -
  let ?v = "map word_of_int (ScalarToArrayBig x) :: u64 list"
  have c: "calcHashVal u v = Inr (?v, Hash u ?v (BranchCapacity u))"
    by (simp add: calcHashVal_def assms(1) NodeValue8_of_scalar)
  have len: "length ?v = 8" by (simp add: ScalarToArrayBig_def)
  have lane: "uint (?v ! i) = (x div 2 ^ (32 * i)) mod 2 ^ 32" if "i < 8" for i
    using that lane_uint[of x i] by (simp add: ScalarToArrayBig_def del: upt_Suc)
  have "(\<Sum>i<8. uint (?v ! i) * 2 ^ (32 * i)) = (\<Sum>i<8. (x div 2 ^ (32 * i)) mod 2 ^ 32 * 2 ^ (32 * i))"
    by (rule sum.cong) (simp_all add: lane)
  also have "\<dots> = x mod 2 ^ (32 * 8)" by (rule lanes_sum)
  also have "\<dots> = x" using assms(2,3) by simp
  finally have s: "(\<Sum>i<8. uint (?v ! i) * 2 ^ (32 * i)) = x" .
  from c len lane s show ?thesis by blast
qed

lemma sample_parse: "convertStringToBigInt ''0x2a'' = Some 42"
  by (simp add: convertStringToBigInt_def HasPrefix_def TrimPrefix_def SetString_def scanNat_def digitVal_def)

theorem calcHashVal_branch_capacity_witness:
  "\<exists>val8. calcHashVal sample_env ''0x2a'' = Inr (val8, Hash sample_env val8 (BranchCapacity sample_env))
     \<and> length val8 = 8 \<and> (\<Sum>i<8. uint (val8 ! i) * 2 ^ (32 * i)) = 42"
proof -
  have "(0::int) \<le> 42" "(42::int) < 2 ^ 256" by simp_all
  from calcHashVal_branch_capacity[OF sample_parse this, of sample_env]
  show ?thesis by blast
qed



section \<open>SetContractStorage: the buffers of the workers\<close>

lemma length_workerIndices:
  "0 < c \<Longrightarrow> length (workerIndices c n j) = (n - j + c - 1) div c"
proof (induction c n j rule: workerIndices.induct)
  case (1 c n j)
  show ?case
  proof (cases "j < n")
    case True
    with 1 have ih: "length (workerIndices c n (j + c)) = (n - (j + c) + c - 1) div c" by simp
    have "(n - j + c - 1) div c = Suc ((n - (j + c) + c - 1) div c)"
    proof (cases "j + c \<le> n")
      case True
      then have "n - j + c - 1 = (n - (j + c) + c - 1) + c" using 1(2) by simp
      then have "(n - j + c - 1) div c = ((n - (j + c) + c - 1) + c) div c" by (simp only:)
      also have "\<dots> = (n - (j + c) + c - 1) div c + 1"
        using 1(2) by (intro div_add_self2) simp
      finally show ?thesis by simp
    next
      case False
      with \<open>j < n\<close> 1(2) have "n - j + c - 1 < 2 * c" "c \<le> n - j + c - 1" by simp_all
      then have "(n - j + c - 1) div c = 1"
        by (metis One_nat_def div_nat_eqI mult.commute mult_2 nat_mult_1_right plus_1_eq_Suc)
      moreover from False have "(n - (j + c) + c - 1) div c = 0" using 1(2) by simp
      ultimately show ?thesis by simp
    qed
    with ih True 1(2) show ?thesis by (simp add: workerIndices.simps[of c n j])
  next
    case False
    then have "n - j + c - 1 < c" using 1(2) by simp
    with False show ?thesis by (simp add: workerIndices.simps[of c n j])
  qed
qed

lemma ceil_le_operationsPerCpu:
  assumes "0 < c"
  shows "(n + c - 1) div c \<le> operationsPerCpu n c"
proof (cases "n mod c = 0")
  case True
  then have "n = (n div c) * c" using div_mult_mod_eq[of n c] by simp
  then obtain q where q: "n = q * c" ..
  have "(q * c + c - 1) div c = q"
  proof -
    have "q * c + c - 1 = q * c + (c - 1)" using assms by simp
    moreover have "(q * c + (c - 1)) div c = q + (c - 1) div c"
      using assms by (intro div_mult_self3) simp
    moreover have "(c - 1) div c = 0" using assms by simp
    ultimately show ?thesis by (simp only: add_0_right)
  qed
  with q assms show ?thesis by (simp add: operationsPerCpu_def)
next
  case False
  then have r: "1 \<le> n mod c" by simp
  have e: "n + c - 1 = (n div c) * c + (n mod c + c - 1)"
  proof -
    have "n = (n div c) * c + n mod c" by simp
    then have "n + c - 1 = ((n div c) * c + n mod c) + c - 1" by (simp only:)
    also have "\<dots> = (n div c) * c + (n mod c + c - 1)" using assms by simp
    finally show ?thesis .
  qed
  have one: "(n mod c + c - 1) div c = 1"
  proof -
    have "n mod c < c" using assms by simp
    with r have "c \<le> n mod c + c - 1" "n mod c + c - 1 < 2 * c" by simp_all
    then show ?thesis
      by (metis One_nat_def div_nat_eqI mult.commute mult_2 nat_mult_1_right plus_1_eq_Suc)
  qed
  have "(n + c - 1) div c = ((n div c) * c + (n mod c + c - 1)) div c"
    by (subst e) (rule refl)
  also have "\<dots> = n div c + (n mod c + c - 1) div c"
    using assms by (intro div_mult_self3) simp
  finally have "(n + c - 1) div c = n div c + 1" by (simp only: one)
  with r show ?thesis by (simp add: operationsPerCpu_def)
qed

lemma workerIndices_fit:
  assumes "0 < c"
  shows "length (workerIndices c n i) \<le> operationsPerCpu n c"
proof -
  have "length (workerIndices c n i) = (n - i + c - 1) div c"
    using assms by (rule length_workerIndices)
  also have "\<dots> \<le> (n + c - 1) div c" by (rule div_le_mono) simp
  also have "\<dots> \<le> operationsPerCpu n c" using assms by (rule ceil_le_operationsPerCpu)
  finally show ?thesis .
qed

lemma visited_step:
  assumes "0 < c" "j < length keys"
  shows "visited storage keys c j =
    (if lookup storage (keys ! j) = [] then visited storage keys c (j + c)
     else keys ! j # visited storage keys c (j + c))"
  using assms by (simp add: visited_def workerIndices.simps[of c "length keys" j])

lemma visited_done: "\<not> (0 < c \<and> j < length keys) \<Longrightarrow> visited storage keys c j = []"
  by (auto simp: visited_def workerIndices.simps[of c "length keys" j])

lemma take_Suc_update: "n < length xs \<Longrightarrow> take (Suc n) (xs[n := x]) = take n xs @ [x]"
  by (simp add: take_Suc_conv_app_nth)

lemma filled_nil: "filled u storage [] count bufs = bufs"
  by (simp add: filled_def)

lemma filled_cons:
  assumes "count < length (keyArray bufs)" "count < length (cVArray bufs)"
    "count < length (hashArray bufs)" "calcHashVal u (lookup storage k) = Inr (c, h)"
  shows "filled u storage ks (Suc count)
           (bufs\<lparr>keyArray := (keyArray bufs)[count := k],
                 cVArray := (cVArray bufs)[count := Some c],
                 hashArray := (hashArray bufs)[count := h]\<rparr>)
         = filled u storage (k # ks) count bufs"
  using assms by (simp add: filled_def take_Suc_update valueOf_def hashOf_def)

lemma worker_result:
  assumes c: "0 < c"
  shows "count + length (visited storage keys c j) \<le> length (keyArray bufs)
     \<Longrightarrow> length (cVArray bufs) = length (keyArray bufs)
     \<Longrightarrow> length (hashArray bufs) = length (keyArray bufs)
     \<Longrightarrow> (if list_all (hashOk u storage) (visited storage keys c j)
          then worker u keys storage c j count bufs
                 = Inr (None, filled u storage (visited storage keys c j) count bufs)
          else \<exists>e b. worker u keys storage c j count bufs = Inr (Some e, b))"
proof (induction "length keys - j" arbitrary: j count bufs rule: less_induct)
  case less
  show ?case
  proof (cases "j < length keys")
    case False
    then show ?thesis
      by (simp add: visited_done worker.simps[of u keys storage c j count bufs] filled_nil)
  next
    case j: True
    let ?k = "keys ! j"
    have m: "length keys - (j + c) < length keys - j" using j c by simp
    show ?thesis
    proof (cases "lookup storage ?k = []")
      case True
      then have v: "visited storage keys c j = visited storage keys c (j + c)"
        using c j by (simp add: visited_step)
      have w: "worker u keys storage c j count bufs = worker u keys storage c (j + c) count bufs"
        using c j True by (simp add: worker.simps[of u keys storage c j count bufs])
      have "count + length (visited storage keys c (j + c)) \<le> length (keyArray bufs)"
        using less.prems v by simp
      from less.hyps[OF m this less.prems(2,3)] show ?thesis
        unfolding v w .
    next
      case ne: False
      then have v: "visited storage keys c j = ?k # visited storage keys c (j + c)"
        using c j by (simp add: visited_step)
      show ?thesis
      proof (cases "calcHashVal u (lookup storage ?k)")
        case (Inl e)
        then have "\<not> hashOk u storage ?k" using ne by (simp add: hashOk_def)
        moreover have "worker u keys storage c j count bufs = Inr (Some e, bufs)"
          using c j ne Inl by (simp add: worker.simps[of u keys storage c j count bufs])
        ultimately show ?thesis by (simp add: v)
      next
        case (Inr ch)
        obtain c0 h0 where ch: "ch = (c0, h0)" by (cases ch)
        have ok: "hashOk u storage ?k" using Inr by (simp add: hashOk_def)
        from less.prems v have cnt: "count < length (keyArray bufs)" by simp
        let ?b = "bufs\<lparr>keyArray := (keyArray bufs)[count := ?k],
                 cVArray := (cVArray bufs)[count := Some c0],
                 hashArray := (hashArray bufs)[count := h0]\<rparr>"
        have w: "worker u keys storage c j count bufs = worker u keys storage c (j + c) (Suc count) ?b"
          using c j ne Inr ch cnt less.prems
          by (simp add: worker.simps[of u keys storage c j count bufs])
        have f: "filled u storage (visited storage keys c (j + c)) (Suc count) ?b
            = filled u storage (?k # visited storage keys c (j + c)) count bufs"
        proof -
          have c2: "count < length (cVArray bufs)" using cnt less.prems by simp
          have c3: "count < length (hashArray bufs)" using cnt less.prems by simp
          have e: "calcHashVal u (lookup storage ?k) = Inr (c0, h0)" using Inr ch by simp
          show ?thesis by (rule filled_cons[OF cnt c2 c3 e])
        qed
        have p1: "Suc count + length (visited storage keys c (j + c)) \<le> length (keyArray ?b)"
          using less.prems v by simp
        have p2: "length (cVArray ?b) = length (keyArray ?b)" using less.prems by simp
        have p3: "length (hashArray ?b) = length (keyArray ?b)" using less.prems by simp
        have "(if list_all (hashOk u storage) (visited storage keys c (j + c))
          then worker u keys storage c (j + c) (Suc count) ?b
                 = Inr (None, filled u storage (visited storage keys c (j + c)) (Suc count) ?b)
          else \<exists>e b. worker u keys storage c (j + c) (Suc count) ?b = Inr (Some e, b))"
          by (rule less.hyps[OF m p1 p2 p3])
        then show ?thesis
          unfolding w v f[symmetric] using ok by simp
      qed
    qed
  qed
qed

lemma length_visited: "length (visited storage keys c j) \<le> length (workerIndices c (length keys) j)"
  by (simp add: visited_def order_trans[OF length_filter_le])

lemma worker_from_start:
  assumes "0 < c"
  shows "if list_all (hashOk u storage) (visited storage keys c i)
     then worker u keys storage c i 0 (makeBuffers (operationsPerCpu (length keys) c))
        = Inr (None, filled u storage (visited storage keys c i) 0
                       (makeBuffers (operationsPerCpu (length keys) c)))
     else \<exists>e b. worker u keys storage c i 0 (makeBuffers (operationsPerCpu (length keys) c))
        = Inr (Some e, b)"
proof -
  have "length (visited storage keys c i) \<le> operationsPerCpu (length keys) c"
    using length_visited workerIndices_fit[OF assms] by (rule order_trans)
  then show ?thesis
    by (intro worker_result[OF assms]) (simp_all add: makeBuffers_def)
qed

section \<open>SetContractStorage: the merge and the sequential path\<close>

lemma waitAll_map:
  assumes "\<And>i. i \<in> set is \<Longrightarrow>
     (if ok i then f i = Inr (None, g i) else \<exists>e b. f i = Inr (Some e, b))"
  shows "if (\<forall>i\<in>set is. ok i) then waitAll (map f is) = Inr (None, map g is)
         else \<exists>e bs. waitAll (map f is) = Inr (Some e, bs)"
  using assms
proof (induction "is")
  case Nil
  show ?case by simp
next
  case (Cons i "is")
  have hd: "if ok i then f i = Inr (None, g i) else \<exists>e b. f i = Inr (Some e, b)"
    by (rule Cons.prems) simp
  have tl: "if (\<forall>i\<in>set is. ok i) then waitAll (map f is) = Inr (None, map g is)
         else \<exists>e bs. waitAll (map f is) = Inr (Some e, bs)"
    by (rule Cons.IH) (simp add: Cons.prems)
  show ?case
  proof (cases "ok i")
    case True
    with hd have fi: "f i = Inr (None, g i)" by simp
    show ?thesis
    proof (cases "\<forall>i\<in>set is. ok i")
      case True
      with tl have "waitAll (map f is) = Inr (None, map g is)" by simp
      with fi True \<open>ok i\<close> show ?thesis by simp
    next
      case False
      with tl obtain e bs where "waitAll (map f is) = Inr (Some e, bs)" by auto
      with fi False show ?thesis by simp
    qed
  next
    case False
    with hd obtain e b where fi: "f i = Inr (Some e, b)" by auto
    show ?thesis
    proof (cases "\<forall>i\<in>set is. ok i")
      case True
      with tl have "waitAll (map f is) = Inr (None, map g is)" by simp
      with fi False show ?thesis by simp
    next
      case nok: False
      with tl obtain e' bs where "waitAll (map f is) = Inr (Some e', bs)" by auto
      with fi False show ?thesis by simp
    qed
  qed
qed

lemma merge_padding: "foldl mergeSlot maps (zip (replicate r []) zs) = maps"
proof (induction r arbitrary: zs)
  case 0
  show ?case by simp
next
  case (Suc r)
  show ?case
  proof (cases zs)
    case Nil
    then show ?thesis by simp
  next
    case (Cons z zs')
    obtain c h where "z = (c, h)" by (cases z)
    moreover obtain chm vhm where "maps = (chm, vhm)" by (cases maps)
    ultimately show ?thesis using Cons Suc.IH by (simp add: mergeSlot_def)
  qed
qed

lemma merge_entries:
  "foldl mergeSlot maps
     (zip ks (zip (map (\<lambda>k. Some (valueOf u storage k)) ks) (map (hashOf u storage) ks)))
   = merged u storage ks maps"
proof (induction ks arbitrary: maps)
  case Nil
  show ?case by (simp add: merged_def)
next
  case (Cons k ks)
  obtain chm vhm where m: "maps = (chm, vhm)" by (cases maps)
  have "merged u storage ks (mergeSlot maps (k, Some (valueOf u storage k), hashOf u storage k))
      = merged u storage (k # ks) maps"
    by (auto simp: merged_def mergeSlot_def m fun_eq_iff)
  then show ?case by (simp add: Cons.IH)
qed

lemma mergeBuffers_filled:
  assumes "length ks \<le> n"
  shows "mergeBuffers maps (filled u storage ks 0 (makeBuffers n)) = merged u storage ks maps"
proof -
  let ?r = "n - length ks"
  have "zip (keyArray (filled u storage ks 0 (makeBuffers n)))
          (zip (cVArray (filled u storage ks 0 (makeBuffers n)))
               (hashArray (filled u storage ks 0 (makeBuffers n))))
      = zip ks (zip (map (\<lambda>k. Some (valueOf u storage k)) ks) (map (hashOf u storage) ks))
        @ zip (replicate ?r []) (zip (replicate ?r None) (replicate ?r (replicate 4 0)))"
    by (simp add: filled_def makeBuffers_def)
  then show ?thesis
    by (simp only: mergeBuffers_def foldl_append merge_entries merge_padding)
qed

lemma merged_append:
  "merged u storage ks2 (merged u storage ks1 maps) = merged u storage (ks1 @ ks2) maps"
  by (auto simp: merged_def fun_eq_iff)

lemma merge_all_buffers:
  assumes "\<And>i. i \<in> set is \<Longrightarrow> length (vis i) \<le> n"
  shows "foldl mergeBuffers maps (map (\<lambda>i. filled u storage (vis i) 0 (makeBuffers n)) is)
     = merged u storage (concat (map vis is)) maps"
  using assms
proof (induction "is" arbitrary: maps)
  case Nil
  show ?case by (simp add: merged_def)
next
  case (Cons i "is")
  have "length (vis i) \<le> n" by (rule Cons.prems) simp
  then have "mergeBuffers maps (filled u storage (vis i) 0 (makeBuffers n)) = merged u storage (vis i) maps"
    by (rule mergeBuffers_filled)
  moreover have "foldl mergeBuffers (merged u storage (vis i) maps)
      (map (\<lambda>i. filled u storage (vis i) 0 (makeBuffers n)) is)
     = merged u storage (concat (map vis is)) (merged u storage (vis i) maps)"
    by (rule Cons.IH) (simp add: Cons.prems)
  ultimately show ?case by (simp add: merged_append)
qed

lemma set_workerIndices:
  assumes c: "0 < c"
  shows "set (workerIndices c n j) = {i. j \<le> i \<and> i < n \<and> i mod c = j mod c}"
proof (induction "n - j" arbitrary: j rule: less_induct)
  case less
  show ?case
  proof (cases "j < n")
    case False
    then show ?thesis by (auto simp: workerIndices.simps[of c n j])
  next
    case True
    then have "n - (j + c) < n - j" using c by simp
    then have ih: "set (workerIndices c n (j + c)) = {i. j + c \<le> i \<and> i < n \<and> i mod c = (j + c) mod c}"
      by (rule less.hyps)
    have "{i. j \<le> i \<and> i < n \<and> i mod c = j mod c}
        = insert j {i. j + c \<le> i \<and> i < n \<and> i mod c = (j + c) mod c}"
    proof (intro set_eqI iffI)
      fix i assume "i \<in> {i. j \<le> i \<and> i < n \<and> i mod c = j mod c}"
      then have i: "j \<le> i" "i < n" "i mod c = j mod c" by simp_all
      show "i \<in> insert j {i. j + c \<le> i \<and> i < n \<and> i mod c = (j + c) mod c}"
      proof (cases "i = j")
        case True
        then show ?thesis by simp
      next
        case False
        with i have "j < i" by simp
        from i(1,3) have "c dvd i - j" by (simp add: mod_eq_dvd_iff_nat)
        with \<open>j < i\<close> have "c \<le> i - j" by (intro dvd_imp_le) simp_all
        with \<open>j < i\<close> have "j + c \<le> i" by linarith
        moreover have "(j + c) mod c = j mod c" by simp
        ultimately show ?thesis using i by simp
      qed
    next
      fix i assume "i \<in> insert j {i. j + c \<le> i \<and> i < n \<and> i mod c = (j + c) mod c}"
      with True show "i \<in> {i. j \<le> i \<and> i < n \<and> i mod c = j mod c}" by auto
    qed
    with ih True c show ?thesis by (simp add: workerIndices.simps[of c n j])
  qed
qed

lemma set_visited:
  assumes "0 < c" "i < c"
  shows "set (visited storage keys c i)
    = {keys ! x | x. x < length keys \<and> x mod c = i \<and> lookup storage (keys ! x) \<noteq> []}"
proof -
  have "x mod c = i \<Longrightarrow> i \<le> x" for x using mod_less_eq_dividend[of x c] by simp
  then show ?thesis
    using assms by (auto simp: visited_def set_workerIndices)
qed

lemma visited_cover:
  assumes "0 < c"
  shows "set (concat (map (visited storage keys c) [0..<c]))
    = {k \<in> set keys. lookup storage k \<noteq> []}"
proof (intro set_eqI iffI)
  fix k assume "k \<in> set (concat (map (visited storage keys c) [0..<c]))"
  then obtain i where "i < c" "k \<in> set (visited storage keys c i)" by auto
  then show "k \<in> {k \<in> set keys. lookup storage k \<noteq> []}"
    using assms by (auto simp: set_visited)
next
  fix k assume "k \<in> {k \<in> set keys. lookup storage k \<noteq> []}"
  then obtain x where x: "x < length keys" "keys ! x = k" "lookup storage k \<noteq> []"
    by (auto simp: in_set_conv_nth)
  have "x mod c < c" using assms by simp
  moreover have "k \<in> set (visited storage keys c (x mod c))"
    using x assms by (auto simp: set_visited)
  ultimately show "k \<in> set (concat (map (visited storage keys c) [0..<c]))" by auto
qed

lemma sequentialLoop_result:
  "if list_all (hashOk u storage) ks
   then sequentialLoop u storage ks maps = Inr (merged_all u storage ks maps)
   else \<exists>e. sequentialLoop u storage ks maps = Inl e"
proof (induction ks arbitrary: maps)
  case Nil
  show ?case by (simp add: merged_all_def)
next
  case (Cons k ks)
  show ?case
  proof (cases "lookup storage k = []")
    case True
    then have "hashOk u storage k" by (simp add: hashOk_def)
    moreover have "merged_all u storage (k # ks) maps = merged_all u storage ks maps"
      using True by (auto simp: merged_all_def fun_eq_iff)
    ultimately show ?thesis using True Cons.IH[of maps] by simp
  next
    case ne: False
    show ?thesis
    proof (cases "calcHashVal u (lookup storage k)")
      case (Inl e)
      then have "\<not> hashOk u storage k" using ne by (simp add: hashOk_def)
      with Inl ne show ?thesis by simp
    next
      case (Inr ch)
      obtain c h where ch: "ch = (c, h)" by (cases ch)
      have ok: "hashOk u storage k" using Inr by (simp add: hashOk_def)
      let ?m = "((fst maps)(k \<mapsto> Some c), (snd maps)(k \<mapsto> h))"
      have "merged_all u storage ks ?m = merged_all u storage (k # ks) maps"
        using ne Inr ch by (auto simp: merged_all_def fun_eq_iff valueOf_def hashOf_def)
      with Cons.IH[of ?m] ne Inr ch ok show ?thesis by simp
    qed
  qed
qed

lemma lookup_in_keys: "lookup storage k \<noteq> [] \<Longrightarrow> k \<in> set (map fst storage)"
  by (cases "map_of storage k") (auto simp: lookup_def dest!: map_of_SomeD intro: rev_image_eqI)

lemma merged_cong: "set ks = set ks' \<Longrightarrow> merged u storage ks maps = merged u storage ks' maps"
  by (simp add: merged_def)

lemma spec_maps_ok:
  assumes "values_hash u storage" "lookup storage k \<noteq> []"
  shows "spec_chm u storage k = Some (Some (valueOf u storage k))"
    and "spec_vhm u storage k = Some (hashOf u storage k)"
proof -
  from assms(2) have "k \<in> set (map fst storage)" by (rule lookup_in_keys)
  with assms have "\<not> isl (calcHashVal u (lookup storage k))"
    by (auto simp: values_hash_def list_all_iff hashOk_def)
  then obtain c h where "calcHashVal u (lookup storage k) = Inr (c, h)"
    by (cases "calcHashVal u (lookup storage k)") auto
  with assms(2) show "spec_chm u storage k = Some (Some (valueOf u storage k))"
    and "spec_vhm u storage k = Some (hashOf u storage k)"
    by (simp_all add: spec_chm_def spec_vhm_def valueOf_def hashOf_def)
qed

lemma spec_maps_none:
  assumes "lookup storage k = []"
  shows "spec_chm u storage k = None" and "spec_vhm u storage k = None"
  using assms by (simp_all add: spec_chm_def spec_vhm_def)

lemma sequential_result:
  "if values_hash u storage
   then SetContractStorage_sequential u storage = Inr (spec_chm u storage, spec_vhm u storage)
   else \<exists>e. SetContractStorage_sequential u storage = Inl e"
proof (cases "values_hash u storage")
  case False
  with sequentialLoop_result[of u storage "map fst storage" "(Map.empty, Map.empty)"]
  show ?thesis by (simp add: SetContractStorage_sequential_def values_hash_def)
next
  case True
  with sequentialLoop_result[of u storage "map fst storage" "(Map.empty, Map.empty)"]
  have "SetContractStorage_sequential u storage
      = Inr (merged_all u storage (map fst storage) (Map.empty, Map.empty))"
    by (simp add: SetContractStorage_sequential_def values_hash_def)
  moreover have "merged_all u storage (map fst storage) (Map.empty, Map.empty)
      = (spec_chm u storage, spec_vhm u storage)"
  proof -
    have "fst (merged_all u storage (map fst storage) (Map.empty, Map.empty)) k = spec_chm u storage k
      \<and> snd (merged_all u storage (map fst storage) (Map.empty, Map.empty)) k = spec_vhm u storage k" for k
    proof (cases "lookup storage k = []")
      case e: True
      then show ?thesis by (simp add: merged_all_def spec_maps_none)
    next
      case ne: False
      then have "k \<in> set (map fst storage)" by (rule lookup_in_keys)
      with ne show ?thesis by (simp add: merged_all_def spec_maps_ok[OF True ne])
    qed
    then show ?thesis by (intro prod_eqI ext) simp_all
  qed
  ultimately show ?thesis using True by simp
qed

lemma parallel_result:
  assumes c: "0 < c"
  shows "if values_hash u storage
   then SetContractStorage_parallel u c storage
        = Inr ((\<lambda>k. if k = [] then None else spec_chm u storage k),
               (\<lambda>k. if k = [] then None else spec_vhm u storage k))
   else \<exists>e. SetContractStorage_parallel u c storage = Inl e"
proof -
  let ?keys = "map fst storage"
  let ?n = "operationsPerCpu (length ?keys) c"
  let ?f = "\<lambda>cpuI. worker u ?keys storage c cpuI 0 (makeBuffers ?n)"
  let ?g = "\<lambda>i. filled u storage (visited storage ?keys c i) 0 (makeBuffers ?n)"
  let ?ok = "\<lambda>i. list_all (hashOk u storage) (visited storage ?keys c i)"
  have w: "if (\<forall>i\<in>set [0..<c]. ?ok i) then waitAll (map ?f [0..<c]) = Inr (None, map ?g [0..<c])
         else \<exists>e bs. waitAll (map ?f [0..<c]) = Inr (Some e, bs)"
    by (rule waitAll_map) (rule worker_from_start[OF c])
  have cover: "set (concat (map (visited storage ?keys c) [0..<c]))
      = {k \<in> set ?keys. lookup storage k \<noteq> []}"
    using c by (rule visited_cover)
  have ok_iff: "(\<forall>i\<in>set [0..<c]. ?ok i) = values_hash u storage"
  proof -
    have "(\<forall>i\<in>set [0..<c]. ?ok i)
        = (\<forall>k\<in>set (concat (map (visited storage ?keys c) [0..<c])). hashOk u storage k)"
      by (auto simp: list_all_iff)
    also have "\<dots> = (\<forall>k\<in>set ?keys. hashOk u storage k)"
      unfolding cover by (auto simp: hashOk_def)
    finally show ?thesis by (simp add: values_hash_def list_all_iff)
  qed
  show ?thesis
  proof (cases "values_hash u storage")
    case False
    with ok_iff have "\<not> (\<forall>i\<in>set [0..<c]. ?ok i)" by simp
    with w have "\<exists>e bs. waitAll (map ?f [0..<c]) = Inr (Some e, bs)" by (simp only: if_False)
    then obtain e bs where "waitAll (map ?f [0..<c]) = Inr (Some e, bs)" by blast
    with False c show ?thesis by (simp add: SetContractStorage_parallel_def Let_def)
  next
    case True
    with ok_iff have "\<forall>i\<in>set [0..<c]. ?ok i" by simp
    with w have wa: "waitAll (map ?f [0..<c]) = Inr (None, map ?g [0..<c])" by (simp only: if_True)
    have fit: "length (visited storage ?keys c i) \<le> ?n" for i
      using length_visited workerIndices_fit[OF c] by (rule order_trans)
    have "foldl mergeBuffers (Map.empty, Map.empty) (map ?g [0..<c])
        = merged u storage (concat (map (visited storage ?keys c) [0..<c])) (Map.empty, Map.empty)"
      by (rule merge_all_buffers) (rule fit)
    also have "\<dots> = ((\<lambda>k. if k = [] then None else spec_chm u storage k),
               (\<lambda>k. if k = [] then None else spec_vhm u storage k))"
    proof -
      let ?m = "merged u storage (filter (\<lambda>k. lookup storage k \<noteq> []) ?keys) (Map.empty, Map.empty)"
      have "merged u storage (concat (map (visited storage ?keys c) [0..<c])) (Map.empty, Map.empty) = ?m"
        by (rule merged_cong) (simp only: cover set_filter)
      moreover have "fst ?m k = (if k = [] then None else spec_chm u storage k)
        \<and> snd ?m k = (if k = [] then None else spec_vhm u storage k)" for k
      proof (cases "lookup storage k = []")
        case e: True
        then show ?thesis by (simp add: merged_def spec_maps_none)
      next
        case ne: False
        then have "k \<in> set (map fst storage)" by (rule lookup_in_keys)
        with ne show ?thesis by (simp add: merged_def spec_maps_ok[OF True ne])
      qed
      ultimately show ?thesis by (intro prod_eqI ext) simp_all
    qed
    finally show ?thesis
      using True c wa by (simp add: SetContractStorage_parallel_def Let_def)
  qed
qed

text \<open>
  Where the two paths agree. For every storage map in which the empty string is not a slot
  with a non-empty value, and every positive number of workers, the parallel path and the
  sequential path give the same result: when every non-empty value hashes, both return one
  entry for every slot whose value string is not empty, the 8-limb value and the value
  hash of calcHashVal; otherwise both fail. The slot of the empty string is the one place
  where they differ.
\<close>

theorem parallel_equals_sequential:
  assumes "0 < cpuNum" and "lookup storage [] = []"
  shows "if values_hash u storage
     then SetContractStorage_parallel u cpuNum storage = Inr (spec_chm u storage, spec_vhm u storage)
        \<and> SetContractStorage_sequential u storage = Inr (spec_chm u storage, spec_vhm u storage)
        \<and> SetContractStorage_maps u cpuNum storage = Inr (spec_chm u storage, spec_vhm u storage)
     else isl (SetContractStorage_parallel u cpuNum storage)
        \<and> isl (SetContractStorage_sequential u storage)
        \<and> isl (SetContractStorage_maps u cpuNum storage)"
proof -
  have "(\<lambda>k. if k = [] then None else spec_chm u storage k) = spec_chm u storage"
    and "(\<lambda>k. if k = [] then None else spec_vhm u storage k) = spec_vhm u storage"
    using assms(2) by (auto simp: spec_chm_def spec_vhm_def fun_eq_iff)
  with parallel_result[OF assms(1), of u storage] sequential_result[of u storage]
  show ?thesis by (auto simp: SetContractStorage_maps_def)
qed

text \<open>
  C2, as amended. For every storage size and every positive number of workers, the
  indices a worker visits are never more than the buffer size storageKeyCount / cpuNum +
  storageKeyCount % cpuNum, and the worker ends without a write beyond its buffers: it
  returns its buffers, with the error of calcHashVal if one occurred.
\<close>

theorem worker_writes_within_buffer:
  assumes "0 < cpuNum"
  shows "length (workerIndices cpuNum (length storageKeys) cpuI)
           \<le> operationsPerCpu (length storageKeys) cpuNum
     \<and> (\<exists>err bufs. worker u storageKeys storage cpuNum cpuI 0
                       (makeBuffers (operationsPerCpu (length storageKeys) cpuNum)) = Inr (err, bufs))"
proof -
  from worker_from_start[OF assms, of u storage storageKeys cpuI]
  have "\<exists>err bufs. worker u storageKeys storage cpuNum cpuI 0
                       (makeBuffers (operationsPerCpu (length storageKeys) cpuNum)) = Inr (err, bufs)"
    by (auto split: if_splits)
  with workerIndices_fit[OF assms] show ?thesis by simp
qed

text \<open>
  C2, the claim as stated fails: there is no storage size above 100, number of workers and
  worker for which the indices the worker visits outnumber the buffer size.
\<close>

theorem buffers_never_under_allocated:
  "\<not> (\<exists>n cpuNum cpuI. 100 < n \<and> 0 < cpuNum \<and> cpuI < cpuNum
        \<and> operationsPerCpu n cpuNum < length (workerIndices cpuNum n cpuI))"
  using workerIndices_fit by (auto simp: not_less)

lemma sample_hash_one:
  "calcHashVal sample_env ''1'' = Inr ([1, 0, 0, 0, 0, 0, 0, 0], [0, 0, 0, 0])"
  by (simp add: calcHashVal_def convertStringToBigInt_def HasPrefix_def SetString_def scanNat_def
      digitVal_def ScalarToArrayBig_def NodeValue8FromBigIntArray_def goldilocks_def
      sample_env_def upt_rec)

lemma lookup_constant:
  assumes "\<forall>p\<in>set storage. snd p = w"
  shows "lookup storage k = [] \<or> lookup storage k = w"
proof (cases "map_of storage k")
  case None
  then show ?thesis by (simp add: lookup_def)
next
  case (Some v)
  then have "(k, v) \<in> set storage" by (rule map_of_SomeD)
  with assms have "v = w" by auto
  with Some show ?thesis by (simp add: lookup_def)
qed

lemma values_hash_constant:
  assumes "\<forall>p\<in>set storage. snd p = w" and "\<not> isl (calcHashVal u w)"
  shows "values_hash u storage"
  using lookup_constant[OF assms(1)] assms(2)
  by (auto simp: values_hash_def hashOk_def list_all_iff)

lemma sample_storage_values: "values_hash sample_env sample_storage"
  by (rule values_hash_constant[where w = "''1''"])
     (auto simp: sample_storage_def sample_hash_one)

lemma sample_storage_nonempty_values: "values_hash sample_env sample_storage_nonempty"
  by (rule values_hash_constant[where w = "''1''"])
     (auto simp: sample_storage_nonempty_def sample_hash_one)

lemma sample_storage_empty_slot: "lookup sample_storage [] = ''1''"
  by (simp add: sample_storage_def lookup_def upt_conv_Cons)

lemma sample_storage_nonempty_no_empty_slot: "lookup sample_storage_nonempty [] = []"
proof -
  have "[] \<notin> fst ` set sample_storage_nonempty"
    by (auto simp: sample_storage_nonempty_def)
  then have "map_of sample_storage_nonempty [] = None" by (simp add: map_of_eq_None_iff)
  then show ?thesis by (simp add: lookup_def)
qed

lemma sample_storage_nonempty_a: "lookup sample_storage_nonempty ''a'' = ''1''"
  by (simp add: sample_storage_nonempty_def lookup_def upt_conv_Cons)

lemma sample_storage_distinct: "distinct (map fst sample_storage)"
proof -
  have "inj_on (\<lambda>i. replicate i (CHR ''a'')) (set [0..<101])"
    by (rule inj_onI) (auto dest: arg_cong[where f = length])
  then have "distinct (map (\<lambda>i. replicate i (CHR ''a'')) [0..<101])"
    by (simp add: distinct_map)
  then show ?thesis by (simp add: sample_storage_def comp_def)
qed

theorem parallel_equals_sequential_witness:
  "length sample_storage_nonempty = 101
   \<and> SetContractStorage_parallel sample_env 4 sample_storage_nonempty
       = Inr (spec_chm sample_env sample_storage_nonempty, spec_vhm sample_env sample_storage_nonempty)
   \<and> SetContractStorage_sequential sample_env sample_storage_nonempty
       = Inr (spec_chm sample_env sample_storage_nonempty, spec_vhm sample_env sample_storage_nonempty)
   \<and> spec_chm sample_env sample_storage_nonempty ''a'' = Some (Some [1, 0, 0, 0, 0, 0, 0, 0])"
proof -
  have c: "(0::nat) < 4" by simp
  from parallel_equals_sequential[OF c sample_storage_nonempty_no_empty_slot, of sample_env]
    sample_storage_nonempty_values
  have "SetContractStorage_parallel sample_env 4 sample_storage_nonempty
       = Inr (spec_chm sample_env sample_storage_nonempty, spec_vhm sample_env sample_storage_nonempty)
   \<and> SetContractStorage_sequential sample_env sample_storage_nonempty
       = Inr (spec_chm sample_env sample_storage_nonempty, spec_vhm sample_env sample_storage_nonempty)"
    by simp
  moreover have "length sample_storage_nonempty = 101" by (simp add: sample_storage_nonempty_def)
  moreover have "spec_chm sample_env sample_storage_nonempty ''a'' = Some (Some [1, 0, 0, 0, 0, 0, 0, 0])"
    by (simp add: spec_chm_def sample_storage_nonempty_a sample_hash_one)
  ultimately show ?thesis by blast
qed

text \<open>
  C3. The two paths do not give the same maps for every storage map: the merge of the
  parallel path takes the empty string for the mark of an unused buffer slot and skips it,
  so a slot whose key is the empty string is lost. On a storage map of 101 distinct slots,
  one of them the empty string with the value 1, the sequential path has an entry for the
  empty slot and the parallel path, which the source takes for this map, has none.
\<close>

theorem parallel_drops_empty_slot:
  "distinct (map fst sample_storage) \<and> length sample_storage = 101
   \<and> lookup sample_storage [] = ''1''
   \<and> (\<exists>chm vhm. SetContractStorage_sequential sample_env sample_storage = Inr (chm, vhm)
         \<and> chm [] = Some (Some [1, 0, 0, 0, 0, 0, 0, 0]))
   \<and> (\<exists>chm vhm. SetContractStorage_maps sample_env 4 sample_storage = Inr (chm, vhm)
         \<and> chm [] = None)
   \<and> SetContractStorage_parallel sample_env 4 sample_storage
       \<noteq> SetContractStorage_sequential sample_env sample_storage"
proof -
  have len: "length sample_storage = 101" by (simp add: sample_storage_def)
  have s: "SetContractStorage_sequential sample_env sample_storage
      = Inr (spec_chm sample_env sample_storage, spec_vhm sample_env sample_storage)"
    using sequential_result[of sample_env sample_storage] sample_storage_values by simp
  have s0: "spec_chm sample_env sample_storage [] = Some (Some [1, 0, 0, 0, 0, 0, 0, 0])"
    by (simp add: spec_chm_def sample_storage_empty_slot sample_hash_one)
  have c: "(0::nat) < 4" by simp
  have p: "SetContractStorage_parallel sample_env 4 sample_storage
      = Inr ((\<lambda>k. if k = [] then None else spec_chm sample_env sample_storage k),
             (\<lambda>k. if k = [] then None else spec_vhm sample_env sample_storage k))"
    using parallel_result[OF c, of sample_env sample_storage] sample_storage_values by simp
  have m: "SetContractStorage_maps sample_env 4 sample_storage
      = SetContractStorage_parallel sample_env 4 sample_storage"
    by (simp add: SetContractStorage_maps_def len)
  have ne: "SetContractStorage_parallel sample_env 4 sample_storage
       \<noteq> SetContractStorage_sequential sample_env sample_storage"
  proof
    assume "SetContractStorage_parallel sample_env 4 sample_storage
       = SetContractStorage_sequential sample_env sample_storage"
    with p s have "(\<lambda>k. if k = [] then None else spec_chm sample_env sample_storage k)
        = spec_chm sample_env sample_storage" by simp
    then have "(if [] = ([]::string) then None else spec_chm sample_env sample_storage [])
        = spec_chm sample_env sample_storage []" by (rule fun_cong)
    with s0 show False by simp
  qed
  from s s0 have a: "\<exists>chm vhm. SetContractStorage_sequential sample_env sample_storage = Inr (chm, vhm)
         \<and> chm [] = Some (Some [1, 0, 0, 0, 0, 0, 0, 0])" by simp
  from p m have b: "\<exists>chm vhm. SetContractStorage_maps sample_env 4 sample_storage = Inr (chm, vhm)
         \<and> chm [] = None" by simp
  from sample_storage_distinct len sample_storage_empty_slot a b ne show ?thesis by blast
qed

theorem worker_writes_within_buffer_witness:
  "length (workerIndices 100 (length (map fst sample_storage)) 0) = 2
   \<and> operationsPerCpu (length (map fst sample_storage)) 100 = 2
   \<and> (\<exists>err bufs. worker sample_env (map fst sample_storage) sample_storage 100 0 0
         (makeBuffers (operationsPerCpu (length (map fst sample_storage)) 100)) = Inr (err, bufs))"
proof -
  have c: "(0::nat) < 100" by simp
  have len: "length sample_storage = 101" by (simp add: sample_storage_def)
  have "length (workerIndices 100 101 0) = 2" using length_workerIndices[OF c, of 101 0] by simp
  moreover have "operationsPerCpu 101 100 = 2" by (simp add: operationsPerCpu_def)
  ultimately show ?thesis
    using worker_writes_within_buffer[OF c, of "map fst sample_storage" 0 sample_env sample_storage]
    by (simp add: len)
qed

end
